theory Spec2Isabelle
  imports Complex_Main "HOL-Library.Multiset"
begin

unbundle bit_operations_syntax

section \<open>Grid constants and coordinates (src/app/page.tsx, lines 6-32)\<close>

text \<open>
  The page fixes a 5 x 5 grid. Cell values, indices and coordinates are JavaScript
  numbers that hold integers; they are modelled as \<^typ>\<open>int\<close>. The operators
  \<^verbatim>\<open>^\<close> and \<^verbatim>\<open>&\<close> act on the 32-bit integer value of their operands;
  on the values that occur here (0 and 1) they agree with \<open>XOR\<close> and \<open>AND\<close> on
  \<^typ>\<open>int\<close>. Positions inside an array are \<^typ>\<open>nat\<close>.
\<close>

definition GRID_SIZE :: int where
  "GRID_SIZE = 5"

definition BOARD_CELLS :: nat where
  "BOARD_CELLS = nat (GRID_SIZE * GRID_SIZE)"

record GameSnapshot =
  board :: "int list"
  moves :: int

definition baseOffsets :: "(int \<times> int) list" where
  "baseOffsets = [(0, 0), (1, 0), (-1, 0), (0, 1), (0, -1)]"

definition coordToIndex :: "int \<Rightarrow> int \<Rightarrow> int" where
  "coordToIndex row col = row * GRID_SIZE + col"

text \<open>
  The remainder operator \<^verbatim>\<open>%\<close> of JavaScript truncates towards zero: the result has
  the sign of the dividend (\<^verbatim>\<open>-1 % 5\<close> is \<^verbatim>\<open>-1\<close>), whereas \<open>mod\<close> on
  \<^typ>\<open>int\<close> takes the sign of the divisor.
\<close>

definition js_rem :: "int \<Rightarrow> int \<Rightarrow> int" where
  "js_rem a b = (if a < 0 then - ((- a) mod \<bar>b\<bar>) else a mod \<bar>b\<bar>)"

text \<open>\<^verbatim>\<open>Math.floor(index / GRID_SIZE)\<close> is the floor of the quotient, which is \<open>div\<close>.\<close>

definition indexToCoord :: "int \<Rightarrow> int \<times> int" where
  "indexToCoord index = (index div GRID_SIZE, js_rem index GRID_SIZE)"

definition inGrid :: "int \<Rightarrow> int \<Rightarrow> bool" where
  "inGrid nr nc \<longleftrightarrow> nr \<ge> 0 \<and> nr < GRID_SIZE \<and> nc \<ge> 0 \<and> nc < GRID_SIZE"

section \<open>The toggle matrix (lines 34-52)\<close>

definition set_entry :: "int list list \<Rightarrow> nat \<Rightarrow> nat \<Rightarrow> int \<Rightarrow> int list list" where
  "set_entry matrix i j v = matrix[i := (matrix ! i)[j := v]]"

definition mark_offset :: "int \<Rightarrow> int \<Rightarrow> int \<times> int \<Rightarrow> int list list \<Rightarrow> int list list" where
  "mark_offset row col off matrix =
     (let nr = row + fst off; nc = col + snd off
      in if inGrid nr nc
         then set_entry matrix (nat (coordToIndex nr nc)) (nat (coordToIndex row col)) 1
         else matrix)"

definition buildToggleMatrix :: "int list list" where
  "buildToggleMatrix =
     fold (\<lambda>row. fold (\<lambda>col. fold (mark_offset row col) baseOffsets) [0 .. GRID_SIZE - 1])
       [0 .. GRID_SIZE - 1]
       (replicate BOARD_CELLS (replicate BOARD_CELLS 0))"

definition toggleMatrix :: "int list list" where
  "toggleMatrix = buildToggleMatrix"

section \<open>The board mutator (lines 140-156)\<close>

definition isSolved :: "int list \<Rightarrow> bool" where
  "isSolved b = list_all (\<lambda>v. v = 0) b"

text \<open>
  \<^verbatim>\<open>next[i] = next[i] ^ 1\<close>. Inside the array the cell is flipped. Past its end
  JavaScript reads \<^verbatim>\<open>undefined\<close>, which \<^verbatim>\<open>^\<close> takes as 0, stores 1 and grows
  the array; the slots skipped over are recorded as 0 here. The bounds test of
  \<open>toggleCell\<close> keeps \<open>i\<close> below 25, so on a board of 25 cells only the first
  branch is ever taken.
\<close>

definition flip_at :: "nat \<Rightarrow> int list \<Rightarrow> int list" where
  "flip_at i xs =
     (if i < length xs then xs[i := (xs ! i) XOR 1]
      else xs @ replicate (i - length xs) 0 @ [1])"

definition toggle_offset :: "int \<Rightarrow> int \<Rightarrow> int \<times> int \<Rightarrow> int list \<Rightarrow> int list" where
  "toggle_offset row col off next =
     (let nr = row + fst off; nc = col + snd off
      in if inGrid nr nc then flip_at (nat (coordToIndex nr nc)) next else next)"

definition toggleCell :: "int list \<Rightarrow> int \<Rightarrow> int list" where
  "toggleCell b index =
     (let (row, col) = indexToCoord index
      in fold (toggle_offset row col) baseOffsets b)"

section \<open>The GF(2) solver (lines 54-118)\<close>

text \<open>
  The solver copies its inputs (\<^verbatim>\<open>inputMatrix.map((row) => [...row])\<close>,
  \<^verbatim>\<open>[...inputVector]\<close>) and works on the copies. In this value-level model the
  copies are the list values themselves; the aliasing of the arrays is the subject of
  the store-level model further down. \<open>rows\<close> and \<open>cols\<close> bound every index used
  below, so on a rectangular matrix with a vector of \<open>rows\<close> entries no read or write
  leaves an array. The only exception the function can raise is the \<^verbatim>\<open>TypeError\<close>
  of \<^verbatim>\<open>inputMatrix[0].length\<close> on an empty matrix.
\<close>

datatype error = TypeError

text \<open>Lines 64-67: the search for the first row at or below \<open>currentRow\<close> with a 1.\<close>

function find_pivot :: "int list list \<Rightarrow> nat \<Rightarrow> nat \<Rightarrow> nat \<Rightarrow> nat" where
  "find_pivot matrix rows col pivotRow =
     (if pivotRow < rows \<and> matrix ! pivotRow ! col = 0
      then find_pivot matrix rows col (pivotRow + 1)
      else pivotRow)"
  by pat_completeness auto
termination
  by (relation "measure (\<lambda>(matrix, rows, col, pivotRow). rows - pivotRow)") auto

declare find_pivot.simps [simp del]

text \<open>
  Lines 82-84: \<^verbatim>\<open>matrix[row][k] ^= matrix[currentRow][k]\<close> for \<open>k\<close> from \<open>col\<close>.
  The loop writes to the array \<^verbatim>\<open>matrix[row]\<close> only and reads the array
  \<^verbatim>\<open>matrix[currentRow]\<close>, a different one since \<open>row \<noteq> currentRow\<close>; the two
  arrays are its arguments \<open>target\<close> and \<open>pivot\<close>.
\<close>

function xor_row :: "int list \<Rightarrow> int list \<Rightarrow> nat \<Rightarrow> nat \<Rightarrow> int list" where
  "xor_row target pivot cols k =
     (if k < cols
      then xor_row (target[k := (target ! k) XOR (pivot ! k)]) pivot cols (k + 1)
      else target)"
  by pat_completeness auto
termination
  by (relation "measure (\<lambda>(target, pivot, cols, k). cols - k)") auto

declare xor_row.simps [simp del]

text \<open>Lines 80-87: the pivot row is added to every other row with a 1 in the column.\<close>

function eliminate ::
  "nat \<Rightarrow> nat \<Rightarrow> nat \<Rightarrow> nat \<Rightarrow> nat \<Rightarrow> int list list \<times> int list \<Rightarrow> int list list \<times> int list" where
  "eliminate rows cols col currentRow row (matrix, vector) =
     (if row < rows
      then eliminate rows cols col currentRow (row + 1)
             (if row \<noteq> currentRow \<and> matrix ! row ! col = 1
              then (matrix[row := xor_row (matrix ! row) (matrix ! currentRow) cols col],
                    vector[row := (vector ! row) XOR (vector ! currentRow)])
              else (matrix, vector))
      else (matrix, vector))"
  by pat_completeness auto
termination
  by (relation "measure (\<lambda>(rows, cols, col, currentRow, row, mv). rows - row)") auto

declare eliminate.simps [simp del]

definition swap_entries :: "nat \<Rightarrow> nat \<Rightarrow> 'a list \<Rightarrow> 'a list" where
  "swap_entries i j xs = xs[i := xs ! j, j := xs ! i]"

text \<open>
  The state of the main loop (lines 63-90): the working matrix and vector, the pivot
  column of every row (\<open>-1\<close> for none) and the current elimination row.
\<close>

type_synonym gauss_state = "int list list \<times> int list \<times> int list \<times> nat"

definition pivot_step :: "nat \<Rightarrow> nat \<Rightarrow> nat \<Rightarrow> gauss_state \<Rightarrow> gauss_state" where
  "pivot_step rows cols col st =
     (case st of (matrix, vector, pivotColumns, currentRow) \<Rightarrow>
        let pivotRow = find_pivot matrix rows col currentRow
        in if pivotRow = rows then st
           else
             let (matrix1, vector1) =
                   (if pivotRow \<noteq> currentRow
                    then (swap_entries currentRow pivotRow matrix,
                          swap_entries currentRow pivotRow vector)
                    else (matrix, vector));
                 pivotColumns1 = pivotColumns[currentRow := int col];
                 (matrix2, vector2) = eliminate rows cols col currentRow 0 (matrix1, vector1)
             in (matrix2, vector2, pivotColumns1, currentRow + 1))"

function reduce :: "nat \<Rightarrow> nat \<Rightarrow> nat \<Rightarrow> gauss_state \<Rightarrow> gauss_state" where
  "reduce rows cols col st =
     (if col < cols \<and> snd (snd (snd st)) < rows
      then reduce rows cols (col + 1) (pivot_step rows cols col st)
      else st)"
  by pat_completeness auto
termination
  by (relation "measure (\<lambda>(rows, cols, col, st). cols - col)") auto

declare reduce.simps [simp del]

text \<open>Lines 92-97: a zero row whose right-hand side is 1 makes the system unsolvable.\<close>

function inconsistent :: "int list list \<Rightarrow> int list \<Rightarrow> nat \<Rightarrow> nat \<Rightarrow> bool" where
  "inconsistent matrix vector rows row =
     (if row < rows
      then (if list_all (\<lambda>v. v = 0) (matrix ! row) \<and> vector ! row = 1 then True
            else inconsistent matrix vector rows (row + 1))
      else False)"
  by pat_completeness auto
termination
  by (relation "measure (\<lambda>(matrix, vector, rows, row). rows - row)") auto

declare inconsistent.simps [simp del]

text \<open>Lines 107-112: the right-hand side plus the already assigned unknowns of the row.\<close>

function accumulate :: "int list \<Rightarrow> int list \<Rightarrow> nat \<Rightarrow> nat \<Rightarrow> int \<Rightarrow> int" where
  "accumulate mrow solution cols col accum =
     (if col < cols
      then accumulate mrow solution cols (col + 1)
             (if mrow ! col = 1 then accum XOR (solution ! col) else accum)
      else accum)"
  by pat_completeness auto
termination
  by (relation "measure (\<lambda>(mrow, solution, cols, col, accum). cols - col)") auto

declare accumulate.simps [simp del]

text \<open>
  Lines 101-115: back substitution, from row \<open>currentRow - 1\<close> down to row 0. The
  loop counter is passed as \<open>row + 1\<close>, so that the loop ends at 0.
\<close>

fun back_substitute ::
  "int list list \<Rightarrow> int list \<Rightarrow> int list \<Rightarrow> nat \<Rightarrow> nat \<Rightarrow> int list \<Rightarrow> int list" where
  "back_substitute matrix vector pivotColumns cols 0 solution = solution"
| "back_substitute matrix vector pivotColumns cols (Suc row) solution =
     (let pivotCol = pivotColumns ! row
      in if pivotCol = -1
         then back_substitute matrix vector pivotColumns cols row solution
         else
           let accum = accumulate (matrix ! row) solution cols (nat pivotCol + 1) (vector ! row)
           in back_substitute matrix vector pivotColumns cols row
                (solution[nat pivotCol := accum AND 1]))"

text \<open>
  The result is \<open>Inl TypeError\<close> for the exception, \<open>Inr None\<close> for \<^verbatim>\<open>null\<close> and
  \<open>Inr (Some solution)\<close> for a solution vector.
\<close>

definition gaussianEliminationGF2 :: "int list list \<Rightarrow> int list \<Rightarrow> error + int list option" where
  "gaussianEliminationGF2 inputMatrix inputVector =
     (if inputMatrix = [] then Inl TypeError
      else
        let rows = length inputMatrix;
            cols = length (inputMatrix ! 0);
            (matrix, vector, pivotColumns, currentRow) =
               reduce rows cols 0 (inputMatrix, inputVector, replicate rows (-1), 0)
        in if inconsistent matrix vector rows currentRow then Inr None
           else Inr (Some (back_substitute matrix vector pivotColumns cols currentRow
                             (replicate cols 0))))"

section \<open>The solution planner (lines 120-138)\<close>

text \<open>
  \<^verbatim>\<open>(GRID_SIZE - 1) / 2\<close> is the number 2: the division is exact for the odd grid
  size of the page, so the distances are integers.
\<close>

definition center :: int where
  "center = (GRID_SIZE - 1) div 2"

definition centerDistance :: "int \<Rightarrow> int" where
  "centerDistance a = (let (row, col) = indexToCoord a in \<bar>row - center\<bar> + \<bar>col - center\<bar>)"

text \<open>
  The comparator \<^verbatim>\<open>da - db || ca.row - cb.row || ca.col - cb.col\<close>: the first of the
  three differences that is not zero, or the last one.
\<close>

definition compareMoves :: "int \<Rightarrow> int \<Rightarrow> int" where
  "compareMoves a b =
     (let ca = indexToCoord a; cb = indexToCoord b;
          da = centerDistance a; db = centerDistance b
      in if da - db \<noteq> 0 then da - db
         else if fst ca - fst cb \<noteq> 0 then fst ca - fst cb
         else snd ca - snd cb)"

text \<open>
  \<^verbatim>\<open>Array.prototype.sort\<close> is the library's: ECMAScript specifies a stable sort that
  orders the array by the comparator. It is modelled by a stable insertion sort, which
  puts \<open>x\<close> before the first element \<open>y\<close> with \<open>cmp x y \<le> 0\<close>.
\<close>

fun insert_by :: "('a \<Rightarrow> 'a \<Rightarrow> int) \<Rightarrow> 'a \<Rightarrow> 'a list \<Rightarrow> 'a list" where
  "insert_by cmp x [] = [x]"
| "insert_by cmp x (y # ys) = (if cmp x y \<le> 0 then x # y # ys else y # insert_by cmp x ys)"

definition js_sort :: "('a \<Rightarrow> 'a \<Rightarrow> int) \<Rightarrow> 'a list \<Rightarrow> 'a list" where
  "js_sort cmp xs = foldr (insert_by cmp) xs []"

text \<open>Lines 126-129: the indices of the entries whose low bit is 1, in ascending order.\<close>

definition solutionIndices :: "int list \<Rightarrow> int list" where
  "solutionIndices solutionVector =
     map snd (filter (\<lambda>entry. fst entry = 1)
       (map (\<lambda>(v, index). (v AND 1, index))
          (zip solutionVector (map int [0 ..< length solutionVector]))))"

definition planMoves :: "int list \<Rightarrow> int list" where
  "planMoves solutionVector = js_sort compareMoves (solutionIndices solutionVector)"

definition computeSolution :: "int list \<Rightarrow> error + int list option" where
  "computeSolution b =
     (case gaussianEliminationGF2 toggleMatrix b of
        Inl e \<Rightarrow> Inl e
      | Inr None \<Rightarrow> Inr None
      | Inr (Some solutionVector) \<Rightarrow> Inr (Some (planMoves solutionVector)))"

section \<open>The puzzle generator (lines 158-176)\<close>

text \<open>
  The seed is a JavaScript number: a finite double, an infinity or \<^verbatim>\<open>NaN\<close>. A
  finite double is a real number, and the arithmetic on finite values is taken exact
  here: the rounding of a result to a double and the sign of zero are not modelled, so
  for a given finite seed the model may toggle other cells than the page does. What is
  proved below of finite seeds holds for every outcome of the threshold tests and for
  every finite value of the product in line 172. The
  values that are not finite follow IEEE 754 as ECMAScript has it: an operation on
  \<^verbatim>\<open>NaN\<close> gives \<^verbatim>\<open>NaN\<close>, \<^verbatim>\<open>Math.sin\<close> of an infinity is \<^verbatim>\<open>NaN\<close>, and every
  comparison with \<^verbatim>\<open>NaN\<close> is false.
\<close>

datatype number = Num real | PosInfinity | NegInfinity | NaN

fun js_add :: "number \<Rightarrow> number \<Rightarrow> number" where
  "js_add (Num x) (Num y) = Num (x + y)"
| "js_add NaN b = NaN"
| "js_add a NaN = NaN"
| "js_add PosInfinity NegInfinity = NaN"
| "js_add NegInfinity PosInfinity = NaN"
| "js_add PosInfinity b = PosInfinity"
| "js_add a PosInfinity = PosInfinity"
| "js_add NegInfinity b = NegInfinity"
| "js_add a NegInfinity = NegInfinity"

fun js_mul :: "number \<Rightarrow> number \<Rightarrow> number" where
  "js_mul (Num x) (Num y) = Num (x * y)"
| "js_mul NaN b = NaN"
| "js_mul a NaN = NaN"
| "js_mul (Num x) PosInfinity = (if x = 0 then NaN else if 0 < x then PosInfinity else NegInfinity)"
| "js_mul (Num x) NegInfinity = (if x = 0 then NaN else if 0 < x then NegInfinity else PosInfinity)"
| "js_mul PosInfinity (Num y) = (if y = 0 then NaN else if 0 < y then PosInfinity else NegInfinity)"
| "js_mul NegInfinity (Num y) = (if y = 0 then NaN else if 0 < y then NegInfinity else PosInfinity)"
| "js_mul PosInfinity PosInfinity = PosInfinity"
| "js_mul PosInfinity NegInfinity = NegInfinity"
| "js_mul NegInfinity PosInfinity = NegInfinity"
| "js_mul NegInfinity NegInfinity = PosInfinity"

fun js_sin :: "number \<Rightarrow> number" where
  "js_sin (Num x) = Num (sin x)"
| "js_sin a = NaN"

text \<open>
  The remainder \<^verbatim>\<open>%\<close> on numbers: the quotient is truncated towards zero, so that
  the result has the sign of the dividend.
\<close>

definition js_trunc :: "real \<Rightarrow> int" where
  "js_trunc r = (if r < 0 then \<lceil>r\<rceil> else \<lfloor>r\<rfloor>)"

fun js_fmod :: "number \<Rightarrow> number \<Rightarrow> number" where
  "js_fmod (Num x) (Num y) = (if y = 0 then NaN else Num (x - y * of_int (js_trunc (x / y))))"
| "js_fmod (Num x) PosInfinity = Num x"
| "js_fmod (Num x) NegInfinity = Num x"
| "js_fmod a b = NaN"

fun js_abs :: "number \<Rightarrow> number" where
  "js_abs (Num x) = Num \<bar>x\<bar>"
| "js_abs NaN = NaN"
| "js_abs a = PosInfinity"

fun js_floor :: "number \<Rightarrow> number" where
  "js_floor (Num x) = Num (of_int \<lfloor>x\<rfloor>)"
| "js_floor a = a"

fun js_gt :: "number \<Rightarrow> number \<Rightarrow> bool" where
  "js_gt (Num x) (Num y) \<longleftrightarrow> x > y"
| "js_gt NaN b \<longleftrightarrow> False"
| "js_gt a NaN \<longleftrightarrow> False"
| "js_gt PosInfinity PosInfinity \<longleftrightarrow> False"
| "js_gt PosInfinity b \<longleftrightarrow> True"
| "js_gt a PosInfinity \<longleftrightarrow> False"
| "js_gt NegInfinity b \<longleftrightarrow> False"
| "js_gt a NegInfinity \<longleftrightarrow> True"

text \<open>
  Line 163 and the test of line 164:
  \<^verbatim>\<open>(Math.sin(randomSeed + iteration * 12.9898) * 43758.5453) % 1\<close> and
  \<^verbatim>\<open>Math.abs(threshold) > 0.35\<close>.
\<close>

definition threshold :: "number \<Rightarrow> nat \<Rightarrow> number" where
  "threshold randomSeed iteration =
     js_fmod (js_mul (js_sin (js_add randomSeed (js_mul (Num (real iteration)) (Num 12.9898))))
                (Num 43758.5453))
       (Num 1)"

definition exceeds :: "number \<Rightarrow> nat \<Rightarrow> bool" where
  "exceeds randomSeed iteration \<longleftrightarrow> js_gt (js_abs (threshold randomSeed iteration)) (Num 0.35)"

text \<open>
  The index of line 172:
  \<^verbatim>\<open>Math.floor(Math.abs(Math.sin(randomSeed) * BOARD_CELLS) % BOARD_CELLS)\<close>.
\<close>

definition forcedIndex :: "number \<Rightarrow> number" where
  "forcedIndex randomSeed =
     js_floor (js_fmod (js_abs (js_mul (js_sin randomSeed) (Num (real BOARD_CELLS))))
                 (Num (real BOARD_CELLS)))"

text \<open>
  \<open>toggleCell\<close> called with a number, as line 172 does. When the number is
  \<^verbatim>\<open>NaN\<close> or an infinity, \<^verbatim>\<open>indexToCoord\<close> gives a row or a column that is
  \<^verbatim>\<open>NaN\<close> or infinite, every test
  \<^verbatim>\<open>nr >= 0 && nr < GRID_SIZE && nc >= 0 && nc < GRID_SIZE\<close> is false, and the copy
  of the board is returned with no cell flipped. When it is finite and not an integer,
  the column \<^verbatim>\<open>index % GRID_SIZE\<close> is not an integer either, so that
  \<^verbatim>\<open>neighborIndex\<close> is the index of no cell and again no cell is flipped.
\<close>

definition toggleCellNumber :: "int list \<Rightarrow> number \<Rightarrow> int list" where
  "toggleCellNumber b index =
     (case index of
        Num x \<Rightarrow> if x = of_int \<lfloor>x\<rfloor> then toggleCell b \<lfloor>x\<rfloor> else b
      | _ \<Rightarrow> b)"

text \<open>Lines 162-169: the loop, with the test of line 164 as the argument \<open>hit\<close>.\<close>

definition puzzle_step ::
  "(nat \<Rightarrow> bool) \<Rightarrow> nat \<Rightarrow> int list \<times> int \<Rightarrow> int list \<times> int" where
  "puzzle_step hit iteration st =
     (case st of (b, toggles) \<Rightarrow>
        if hit iteration
        then (toggleCell b (int (iteration mod BOARD_CELLS)), toggles + 1)
        else (b, toggles))"

definition puzzle_loop :: "(nat \<Rightarrow> bool) \<Rightarrow> int list \<times> int" where
  "puzzle_loop hit = fold (puzzle_step hit) [0 ..< BOARD_CELLS] (replicate BOARD_CELLS 0, 0)"

definition createPuzzle :: "number \<Rightarrow> int list" where
  "createPuzzle randomSeed =
     (case puzzle_loop (exceeds randomSeed) of (b, toggles) \<Rightarrow>
        if toggles = 0 \<or> isSolved b then toggleCellNumber b (forcedIndex randomSeed) else b)"

section \<open>The game state (lines 178-206)\<close>

text \<open>
  The move counter is a JavaScript number that starts at 0 (lines 182 and 186) and that
  only \<^verbatim>\<open>makeMove\<close> changes, by adding 1: it holds an integer. The sum
  \<^verbatim>\<open>current.moves + 1\<close> is the double nearest to the exact sum, and of two doubles
  equally near the one with the even significand. \<open>spacing n\<close> is the distance between
  the doubles at the magnitude of the integer \<open>n\<close>: 1 below \<open>2 ^ 53\<close>, 2 from
  there to \<open>2 ^ 54\<close>, and so on; \<open>roundToDouble n\<close> is the double nearest to \<open>n\<close>.
  The sum of a double and 1 never overflows to an infinity.
\<close>

fun bit_length :: "nat \<Rightarrow> nat" where
  "bit_length n = (if n = 0 then 0 else Suc (bit_length (n div 2)))"

declare bit_length.simps [simp del]

definition spacing :: "int \<Rightarrow> int" where
  "spacing n = 2 ^ (bit_length (nat \<bar>n\<bar>) - 53)"

definition roundToDouble :: "int \<Rightarrow> int" where
  "roundToDouble n =
     (let u = spacing n; q = n div u; r = n mod u in
        if 2 * r < u then q * u
        else if u < 2 * r then (q + 1) * u
        else if even q then q * u
        else (q + 1) * u)"

definition incrementMoves :: "int \<Rightarrow> int" where
  "incrementMoves m = roundToDouble (m + 1)"

text \<open>
  \<^verbatim>\<open>makeMove\<close> replaces the snapshot by a new one. It has no test on the index and
  no error value.
\<close>

definition makeMove :: "GameSnapshot \<Rightarrow> int \<Rightarrow> GameSnapshot" where
  "makeMove current index =
     \<lparr>board = toggleCell (board current) index, moves = incrementMoves (moves current)\<rparr>"

section \<open>The solver on a store of arrays (lines 54-118)\<close>

text \<open>
  The model above works on list values, where a copy and its original cannot be told
  apart. To speak about the arrays the caller passes in, the solver is modelled a second
  time on a store: a list of objects, an address being a position in the list. An
  object is an array of numbers or an array of references to arrays (the matrix);
  \<open>alloc\<close> appends a new object, as \<^verbatim>\<open>[...row]\<close>, \<^verbatim>\<open>map\<close> and \<^verbatim>\<open>Array(n).fill\<close>
  create new arrays. Every read and write of the source goes through the array it names:
  \<^verbatim>\<open>matrix[row][k]\<close> reads the reference at position \<open>row\<close> of the array
  \<open>matrix\<close> and then position \<open>k\<close> of the array it refers to. The loops are those
  of the value-level model, statement by statement.
\<close>

datatype obj = Nums "int list" | Refs "nat list"

type_synonym store = "obj list"

definition nums :: "store \<Rightarrow> nat \<Rightarrow> int list" where
  "nums h a = (case h ! a of Nums xs \<Rightarrow> xs | Refs rs \<Rightarrow> [])"

definition refs :: "store \<Rightarrow> nat \<Rightarrow> nat list" where
  "refs h a = (case h ! a of Refs rs \<Rightarrow> rs | Nums xs \<Rightarrow> [])"

definition alloc :: "obj \<Rightarrow> store \<Rightarrow> store \<times> nat" where
  "alloc ob h = (h @ [ob], length h)"

definition cell :: "store \<Rightarrow> nat \<Rightarrow> nat \<Rightarrow> nat \<Rightarrow> int" where
  "cell h m row k = nums h (refs h m ! row) ! k"

text \<open>\<^verbatim>\<open>a[k] = x\<close> on the array of numbers at address \<open>a\<close>.\<close>

definition write_num :: "nat \<Rightarrow> nat \<Rightarrow> int \<Rightarrow> store \<Rightarrow> store" where
  "write_num a k x h = h[a := Nums ((nums h a)[k := x])]"

text \<open>\<^verbatim>\<open>inputMatrix.map((row) => [...row])\<close>: a new array for every row.\<close>

fun copy_rows :: "nat list \<Rightarrow> store \<Rightarrow> store \<times> nat list" where
  "copy_rows [] h = (h, [])"
| "copy_rows (r # rs) h =
     (let (h1, a) = alloc (Nums (nums h r)) h;
          (h2, as) = copy_rows rs h1
      in (h2, a # as))"

function find_pivot_st :: "store \<Rightarrow> nat \<Rightarrow> nat \<Rightarrow> nat \<Rightarrow> nat \<Rightarrow> nat" where
  "find_pivot_st h m rows col pivotRow =
     (if pivotRow < rows \<and> cell h m pivotRow col = 0
      then find_pivot_st h m rows col (pivotRow + 1)
      else pivotRow)"
  by pat_completeness auto
termination
  by (relation "measure (\<lambda>(h, m, rows, col, pivotRow). rows - pivotRow)") auto

declare find_pivot_st.simps [simp del]

function xor_row_st :: "nat \<Rightarrow> nat \<Rightarrow> nat \<Rightarrow> nat \<Rightarrow> nat \<Rightarrow> store \<Rightarrow> store" where
  "xor_row_st m row currentRow cols k h =
     (if k < cols
      then xor_row_st m row currentRow cols (k + 1)
             (write_num (refs h m ! row) k ((cell h m row k) XOR (cell h m currentRow k)) h)
      else h)"
  by pat_completeness auto
termination
  by (relation "measure (\<lambda>(m, row, currentRow, cols, k, h). cols - k)") auto

declare xor_row_st.simps [simp del]

function eliminate_st :: "nat \<Rightarrow> nat \<Rightarrow> nat \<Rightarrow> nat \<Rightarrow> nat \<Rightarrow> nat \<Rightarrow> nat \<Rightarrow> store \<Rightarrow> store" where
  "eliminate_st m v rows cols col currentRow row h =
     (if row < rows
      then eliminate_st m v rows cols col currentRow (row + 1)
             (if row \<noteq> currentRow \<and> cell h m row col = 1
              then (let h1 = xor_row_st m row currentRow cols col h
                    in write_num v row ((nums h1 v ! row) XOR (nums h1 v ! currentRow)) h1)
              else h)
      else h)"
  by pat_completeness auto
termination
  by (relation "measure (\<lambda>(m, v, rows, cols, col, currentRow, row, h). rows - row)") auto

declare eliminate_st.simps [simp del]

definition swap_rows_st :: "nat \<Rightarrow> nat \<Rightarrow> nat \<Rightarrow> store \<Rightarrow> store" where
  "swap_rows_st m i j h = h[m := Refs (swap_entries i j (refs h m))]"

definition swap_nums_st :: "nat \<Rightarrow> nat \<Rightarrow> nat \<Rightarrow> store \<Rightarrow> store" where
  "swap_nums_st v i j h = h[v := Nums (swap_entries i j (nums h v))]"

definition pivot_step_st ::
  "nat \<Rightarrow> nat \<Rightarrow> nat \<Rightarrow> nat \<Rightarrow> nat \<Rightarrow> nat \<Rightarrow> store \<times> nat \<Rightarrow> store \<times> nat" where
  "pivot_step_st m v pc rows cols col st =
     (case st of (h, currentRow) \<Rightarrow>
        let pivotRow = find_pivot_st h m rows col currentRow
        in if pivotRow = rows then st
           else
             let h1 = (if pivotRow \<noteq> currentRow
                       then swap_nums_st v currentRow pivotRow (swap_rows_st m currentRow pivotRow h)
                       else h);
                 h2 = write_num pc currentRow (int col) h1;
                 h3 = eliminate_st m v rows cols col currentRow 0 h2
             in (h3, currentRow + 1))"

function reduce_st ::
  "nat \<Rightarrow> nat \<Rightarrow> nat \<Rightarrow> nat \<Rightarrow> nat \<Rightarrow> nat \<Rightarrow> store \<times> nat \<Rightarrow> store \<times> nat" where
  "reduce_st m v pc rows cols col st =
     (if col < cols \<and> snd st < rows
      then reduce_st m v pc rows cols (col + 1) (pivot_step_st m v pc rows cols col st)
      else st)"
  by pat_completeness auto
termination
  by (relation "measure (\<lambda>(m, v, pc, rows, cols, col, st). cols - col)") auto

declare reduce_st.simps [simp del]

function inconsistent_st :: "store \<Rightarrow> nat \<Rightarrow> nat \<Rightarrow> nat \<Rightarrow> nat \<Rightarrow> bool" where
  "inconsistent_st h m v rows row =
     (if row < rows
      then (if list_all (\<lambda>e. e = 0) (nums h (refs h m ! row)) \<and> nums h v ! row = 1 then True
            else inconsistent_st h m v rows (row + 1))
      else False)"
  by pat_completeness auto
termination
  by (relation "measure (\<lambda>(h, m, v, rows, row). rows - row)") auto

declare inconsistent_st.simps [simp del]

fun back_substitute_st :: "nat \<Rightarrow> nat \<Rightarrow> nat \<Rightarrow> nat \<Rightarrow> nat \<Rightarrow> nat \<Rightarrow> store \<Rightarrow> store" where
  "back_substitute_st m v pc sol cols 0 h = h"
| "back_substitute_st m v pc sol cols (Suc row) h =
     (let pivotCol = nums h pc ! row
      in if pivotCol = -1
         then back_substitute_st m v pc sol cols row h
         else
           let accum = accumulate (nums h (refs h m ! row)) (nums h sol) cols (nat pivotCol + 1)
                         (nums h v ! row)
           in back_substitute_st m v pc sol cols row (write_num sol (nat pivotCol) (accum AND 1) h))"

definition gaussianEliminationGF2_st ::
  "store \<Rightarrow> nat \<Rightarrow> nat \<Rightarrow> error + store \<times> nat option" where
  "gaussianEliminationGF2_st h inputMatrix inputVector =
     (if refs h inputMatrix = [] then Inl TypeError
      else
        let rows = length (refs h inputMatrix);
            cols = length (nums h (refs h inputMatrix ! 0));
            (h1, rowCopies) = copy_rows (refs h inputMatrix) h;
            (h2, matrix) = alloc (Refs rowCopies) h1;
            (h3, vector) = alloc (Nums (nums h2 inputVector)) h2;
            (h4, pivotColumns) = alloc (Nums (replicate rows (-1))) h3;
            (h5, currentRow) = reduce_st matrix vector pivotColumns rows cols 0 (h4, 0)
        in if inconsistent_st h5 matrix vector rows currentRow then Inr (h5, None)
           else
             let (h6, solution) = alloc (Nums (replicate cols 0)) h5;
                 h7 = back_substitute_st matrix vector pivotColumns solution cols currentRow h6
             in Inr (h7, Some solution))"

text \<open>
  The working matrix at address \<open>m\<close> refers to \<open>rows\<close> arrays, all allocated at or
  after address \<open>n0\<close>.
\<close>

definition rows_ok :: "nat \<Rightarrow> nat \<Rightarrow> nat \<Rightarrow> store \<Rightarrow> bool" where
  "rows_ok n0 m rows h \<longleftrightarrow> length (refs h m) = rows \<and> (\<forall>a\<in>set (refs h m). n0 \<le> a \<and> a \<noteq> m)"

section \<open>Notions used to state and prove the properties\<close>

text \<open>A cell value is a bit; \<open>vxor\<close> adds two boards cell by cell.\<close>

definition is_bit :: "int \<Rightarrow> bool" where
  "is_bit v \<longleftrightarrow> v = 0 \<or> v = 1"

definition vxor :: "int list \<Rightarrow> int list \<Rightarrow> int list" where
  "vxor xs ys = map (\<lambda>(a, b). a XOR b) (zip xs ys)"

text \<open>A function on boards that flips one fixed cell below \<open>n\<close>, or none.\<close>

definition cell_flip :: "nat \<Rightarrow> (int list \<Rightarrow> int list) \<Rightarrow> bool" where
  "cell_flip n f \<longleftrightarrow> f = (\<lambda>xs. xs) \<or> (\<exists>k<n. f = flip_at k)"

text \<open>
  A well-formed system: a rectangular matrix of bits. \<open>dotn n r x\<close> is the product of
  a row with a vector over GF(2), and \<open>solves M v x\<close> says that \<open>x\<close> solves \<open>M x = v\<close>.
\<close>

definition wf_matrix :: "nat \<Rightarrow> nat \<Rightarrow> int list list \<Rightarrow> bool" where
  "wf_matrix R C M \<longleftrightarrow> length M = R \<and> (\<forall>r<R. length (M ! r) = C \<and> list_all is_bit (M ! r))"

fun dotn :: "nat \<Rightarrow> int list \<Rightarrow> int list \<Rightarrow> int" where
  "dotn 0 r x = 0"
| "dotn (Suc n) r x = dotn n r x XOR ((r ! n) AND (x ! n))"

definition solves :: "int list list \<Rightarrow> int list \<Rightarrow> int list \<Rightarrow> bool" where
  "solves M v x \<longleftrightarrow> list_all (\<lambda>r. dotn (length x) (M ! r) x = v ! r) [0 ..< length M]"

text \<open>
  The invariant of the elimination before column \<open>col\<close>: the rows below \<open>cur\<close> have
  a pivot column each, with a 1 in their own row and 0 in every other row, and the rows
  from \<open>cur\<close> on are zero in all columns before \<open>col\<close>.
\<close>

definition echelon :: "nat \<Rightarrow> nat \<Rightarrow> nat \<Rightarrow> int list list \<Rightarrow> int list \<Rightarrow> nat \<Rightarrow> bool" where
  "echelon R C col M piv cur \<longleftrightarrow>
     wf_matrix R C M \<and> length piv = R \<and> cur \<le> R \<and> col \<le> C \<and>
     (\<forall>r<cur. 0 \<le> piv ! r \<and> nat (piv ! r) < col \<and> M ! r ! nat (piv ! r) = 1 \<and>
        (\<forall>r'<R. r' \<noteq> r \<longrightarrow> M ! r' ! nat (piv ! r) = 0)) \<and>
     (\<forall>r<R. cur \<le> r \<longrightarrow> (\<forall>c<col. M ! r ! c = 0))"

text \<open>Toggling a list of indices, one after the other.\<close>

definition applyToggles :: "int list \<Rightarrow> int list \<Rightarrow> int list" where
  "applyToggles indices b = fold (\<lambda>index b. toggleCell b index) indices b"

text \<open>
  The number of set bits of a row, and the number expected for the row of cell \<open>i\<close>:
  3 for a corner, 4 for another cell of the border, 5 for an interior cell.
\<close>

definition popcount :: "int list \<Rightarrow> nat" where
  "popcount row = length (filter (\<lambda>v. v = 1) row)"

definition onBorder :: "int \<Rightarrow> bool" where
  "onBorder k \<longleftrightarrow> k = 0 \<or> k = GRID_SIZE - 1"

definition expectedPopcount :: "nat \<Rightarrow> nat" where
  "expectedPopcount i =
     (let (row, col) = indexToCoord (int i)
      in if onBorder row \<and> onBorder col then 3
         else if onBorder row \<or> onBorder col then 4
         else 5)"

definition symmetric_upto :: "nat \<Rightarrow> int list list \<Rightarrow> bool" where
  "symmetric_upto n m \<longleftrightarrow> list_all (\<lambda>i. list_all (\<lambda>j. m ! i ! j = m ! j ! i) [0 ..< n]) [0 ..< n]"


text \<open>A store of a caller: a singular 3 x 3 matrix at address 3 and a vector at address 4.\<close>

definition caller_store :: store where
  "caller_store = [Nums [0, 1, 1], Nums [1, 1, 0], Nums [1, 0, 1], Refs [0, 1, 2], Nums [1, 0, 1]]"

text \<open>
  The matrix value held by the array of arrays at address \<open>m\<close>, and the condition
  under which the working arrays of the solver are separate objects: the matrix \<open>m\<close>,
  the vector \<open>v\<close>, the pivot columns \<open>pc\<close> and the rows of the matrix are pairwise
  different addresses inside the store.
\<close>

definition absM :: "store \<Rightarrow> nat \<Rightarrow> int list list" where
  "absM h m = map (nums h) (refs h m)"

definition sep :: "nat \<Rightarrow> nat \<Rightarrow> nat \<Rightarrow> store \<Rightarrow> bool" where
  "sep m v pc h \<longleftrightarrow>
     m < length h \<and> v < length h \<and> pc < length h \<and> v \<noteq> m \<and> pc \<noteq> m \<and> pc \<noteq> v \<and>
     distinct (refs h m) \<and> (\<forall>a\<in>set (refs h m). a < length h \<and> a \<noteq> m \<and> a \<noteq> v \<and> a \<noteq> pc)"

section \<open>Properties of the board mutator\<close>

lemmas grid_defs = GRID_SIZE_def BOARD_CELLS_def baseOffsets_def coordToIndex_def js_rem_def
  indexToCoord_def inGrid_def

lemma inGrid_index: "inGrid nr nc \<Longrightarrow> nat (coordToIndex nr nc) < 25"
  by (auto simp: inGrid_def coordToIndex_def GRID_SIZE_def)

lemma toggle_offset_flip: "cell_flip 25 (toggle_offset row col off)"
  unfolding cell_flip_def
proof (cases "inGrid (row + fst off) (col + snd off)")
  case True
  then have "toggle_offset row col off = flip_at (nat (coordToIndex (row + fst off) (col + snd off)))"
    by (auto simp: toggle_offset_def Let_def)
  with inGrid_index[OF True] show "toggle_offset row col off = (\<lambda>xs. xs) \<or> (\<exists>k<25. toggle_offset row col off = flip_at k)"
    by blast
next
  case False
  then have "toggle_offset row col off = (\<lambda>xs. xs)"
    by (auto simp: toggle_offset_def Let_def)
  then show "toggle_offset row col off = (\<lambda>xs. xs) \<or> (\<exists>k<25. toggle_offset row col off = flip_at k)"
    by blast
qed

lemma length_vxor [simp]: "length (vxor xs ys) = min (length xs) (length ys)"
  by (simp add: vxor_def)

lemma nth_vxor [simp]: "i < length xs \<Longrightarrow> i < length ys \<Longrightarrow> vxor xs ys ! i = (xs ! i) XOR (ys ! i)"
  by (simp add: vxor_def)

lemma cell_flip_length: "cell_flip n f \<Longrightarrow> length xs = n \<Longrightarrow> length (f xs) = n"
  by (auto simp: cell_flip_def flip_at_def)

lemma is_bit_xor1: "is_bit v \<Longrightarrow> is_bit (v XOR 1)"
  by (auto simp: is_bit_def)

lemma cell_flip_bits:
  "cell_flip n f \<Longrightarrow> length xs = n \<Longrightarrow> list_all is_bit xs \<Longrightarrow> list_all is_bit (f xs)"
  by (auto simp: cell_flip_def flip_at_def list_all_length nth_list_update is_bit_xor1)

lemma cell_flip_vxor:
  assumes "cell_flip n f" "length xs = n" "length ys = n"
  shows "f (vxor xs ys) = vxor (f xs) ys"
proof -
  from assms(1) consider "f = (\<lambda>xs. xs)" | k where "k < n" "f = flip_at k"
    by (auto simp: cell_flip_def)
  then show ?thesis
  proof cases
    case 1
    then show ?thesis by simp
  next
    case 2
    show ?thesis
      using assms(2,3) 2
      by (auto intro!: nth_equalityI simp: flip_at_def nth_list_update xor.assoc xor.commute xor.left_commute)
  qed
qed

lemma toggleCell_fold:
  "toggleCell b index = fold (toggle_offset (fst (indexToCoord index)) (snd (indexToCoord index))) baseOffsets b"
  by (simp add: toggleCell_def case_prod_beta)

lemma fold_flip_length:
  assumes g: "\<And>off. cell_flip n (g off)"
  shows "length xs = n \<Longrightarrow> length (fold g offs xs) = n"
proof (induction offs arbitrary: xs)
  case Nil
  then show ?case by simp
next
  case (Cons a offs)
  from Cons.prems have "length (g a xs) = n"
    by (rule cell_flip_length[OF g])
  then show ?case
    using Cons.IH by simp
qed

lemma fold_flip_bits:
  assumes g: "\<And>off. cell_flip n (g off)"
  shows "length xs = n \<Longrightarrow> list_all is_bit xs \<Longrightarrow> list_all is_bit (fold g offs xs)"
proof (induction offs arbitrary: xs)
  case Nil
  then show ?case by simp
next
  case (Cons a offs)
  have "length (g a xs) = n" "list_all is_bit (g a xs)"
    using Cons.prems cell_flip_length[OF g] cell_flip_bits[OF g] by blast+
  then show ?case
    using Cons.IH by simp
qed

lemma fold_flip_vxor:
  assumes g: "\<And>off. cell_flip n (g off)"
  shows "length xs = n \<Longrightarrow> length ys = n
     \<Longrightarrow> fold g offs (vxor xs ys) = vxor (fold g offs xs) ys"
proof (induction offs arbitrary: xs)
  case Nil
  then show ?case by simp
next
  case (Cons a offs)
  have "length (g a xs) = n"
    using Cons.prems cell_flip_length[OF g] by blast
  moreover have "g a (vxor xs ys) = vxor (g a xs) ys"
    using Cons.prems cell_flip_vxor[OF g] by blast
  ultimately show ?case
    using Cons.IH Cons.prems by simp
qed

lemma toggleCell_length: "length b = 25 \<Longrightarrow> length (toggleCell b index) = 25"
  unfolding toggleCell_fold by (rule fold_flip_length[OF toggle_offset_flip])

lemma toggleCell_bits:
  "length b = 25 \<Longrightarrow> list_all is_bit b \<Longrightarrow> list_all is_bit (toggleCell b index)"
  unfolding toggleCell_fold by (rule fold_flip_bits[OF toggle_offset_flip])

lemma toggleCell_vxor:
  "length xs = 25 \<Longrightarrow> length ys = 25 \<Longrightarrow> toggleCell (vxor xs ys) index = vxor (toggleCell xs index) ys"
  unfolding toggleCell_fold by (rule fold_flip_vxor[OF toggle_offset_flip])

lemma vxor_zero_left: "length xs = n \<Longrightarrow> vxor (replicate n 0) xs = xs"
  by (auto intro!: nth_equalityI)

lemma vxor_cancel: "length xs = length ys \<Longrightarrow> vxor (vxor ys xs) xs = ys"
  by (auto intro!: nth_equalityI simp: xor.assoc)

lemma toggleCell_mask:
  assumes "length b = 25"
  shows "toggleCell b index = vxor (toggleCell (replicate 25 0) index) b"
proof -
  have "toggleCell (vxor (replicate 25 0) b) index = vxor (toggleCell (replicate 25 0) index) b"
    using assms by (intro toggleCell_vxor) simp_all
  then show ?thesis
    using assms by (simp add: vxor_zero_left)
qed

lemma toggleCell_involution:
  assumes "length b = 25"
  shows "toggleCell (toggleCell b index) index = b"
proof -
  let ?m = "toggleCell (replicate 25 0) index"
  have lm: "length ?m = 25" by (simp add: toggleCell_length)
  have "toggleCell (toggleCell b index) index = vxor ?m (vxor ?m b)"
    using assms toggleCell_mask[of "toggleCell b index" index] toggleCell_mask[of b index]
    by (simp add: toggleCell_length)
  also have "\<dots> = b"
    using assms lm by (auto intro!: nth_equalityI simp flip: xor.assoc)
  finally show ?thesis .
qed

lemma toggleCell_25: "length b = 25 \<Longrightarrow> toggleCell b 25 = b[20 := (b ! 20) XOR 1]"
  by (simp add: toggleCell_def toggle_offset_def flip_at_def grid_defs)


lemma xor_one_neq: "(x::int) XOR 1 \<noteq> x"
proof
  assume "x XOR 1 = x"
  then have "x XOR (x XOR 1) = x XOR x" by simp
  then show False by (simp flip: xor.assoc)
qed

lemma bits_iff: "list_all is_bit xs \<longleftrightarrow> set xs \<subseteq> {0, 1}"
  by (auto simp: list_all_iff is_bit_def)

lemma toggleCell_past_end:
  assumes "length b = 25" "25 \<le> i" "i < 30"
  shows "toggleCell b i = b[nat (i - 5) := (b ! nat (i - 5)) XOR 1]"
proof -
  from assms(2,3) consider "i = 25" | "i = 26" | "i = 27" | "i = 28" | "i = 29"
    by arith
  then show ?thesis
    using assms(1)
    by cases (simp_all add: toggleCell_def toggle_offset_def flip_at_def grid_defs)
qed

text \<open>
  Claim C5. For every board \<open>b\<close> of 25 cells and every index \<open>i\<close> from 0 to 24,
  toggling the same index twice gives the board back:
  \<open>toggleCell (toggleCell b i) i = b\<close>.
\<close>

theorem toggle_self_inverse:
  "length b = 25 \<Longrightarrow> 0 \<le> i \<Longrightarrow> i < 25 \<Longrightarrow> toggleCell (toggleCell b i) i = b"
  by (rule toggleCell_involution)

theorem toggle_self_inverse_witness:
  "toggleCell (toggleCell [1, 0, 0, 1, 0, 0, 0, 0, 0, 0, 0, 0, 0, 0, 0, 0, 0, 0, 0, 0, 0, 0, 0, 0, 1] 7) 7
     = [1, 0, 0, 1, 0, 0, 0, 0, 0, 0, 0, 0, 0, 0, 0, 0, 0, 0, 0, 0, 0, 0, 0, 0, 1]"
  using toggle_self_inverse[of "[1, 0, 0, 1, 0, 0, 0, 0, 0, 0, 0, 0, 0, 0, 0, 0, 0, 0, 0, 0, 0, 0, 0, 0, 1]" 7]
  by simp

text \<open>
  Claim C10. \<open>toggleCell\<close> has no test on the index itself: for every board of 25
  bits and every integer index, in range or not, it returns a board of 25 bits; and an
  index past the end can change the board: index 25 is row 5, column 0, whose upper
  neighbour, cell 20 (row 4, column 0), is flipped.
\<close>

theorem toggleCell_unchecked:
  assumes "length b = 25" and "set b \<subseteq> {0, 1}"
  shows "length (toggleCell b i) = 25 \<and> set (toggleCell b i) \<subseteq> {0, 1}
         \<and> toggleCell b 25 = b[20 := (b ! 20) XOR 1] \<and> toggleCell b 25 \<noteq> b"
proof -
  have "toggleCell b 25 \<noteq> b"
  proof
    assume "toggleCell b 25 = b"
    then have "b[20 := (b ! 20) XOR 1] ! 20 = b ! 20"
      using assms(1) by (simp add: toggleCell_25)
    then show False
      using assms(1) by (simp add: xor_one_neq)
  qed
  then show ?thesis
    using assms toggleCell_length[of b i] toggleCell_bits[of b i] toggleCell_25[of b]
    by (simp add: bits_iff)
qed

theorem toggleCell_unchecked_witness:
  "toggleCell (replicate 25 0) 25 = (replicate 25 0)[20 := 1]
   \<and> length (toggleCell (replicate 25 0) (-3)) = 25"
  using toggleCell_unchecked[of "replicate 25 0" "-3"] by simp

section \<open>Properties of the game state\<close>

lemma bit_length_le: "n < 2 ^ k \<Longrightarrow> bit_length n \<le> k"
proof (induction k arbitrary: n)
  case 0
  then show ?case by (simp add: bit_length.simps)
next
  case (Suc k)
  show ?case
  proof (cases "n = 0")
    case True
    then show ?thesis by (simp add: bit_length.simps)
  next
    case False
    have "n div 2 < 2 ^ k"
      using Suc.prems by simp
    from Suc.IH[OF this] False show ?thesis
      by (subst bit_length.simps) simp
  qed
qed

lemma bit_length_power: "bit_length (2 ^ k) = Suc k"
proof (induction k)
  case 0
  have "bit_length 1 = Suc (bit_length 0)"
    by (subst bit_length.simps) simp
  then show ?case
    by (simp add: bit_length.simps[of 0])
next
  case (Suc k)
  have "bit_length (2 ^ Suc k) = Suc (bit_length (2 ^ Suc k div 2))"
    by (subst bit_length.simps) simp
  then show ?case
    using Suc by simp
qed

lemma roundToDouble_exact:
  assumes "\<bar>n\<bar> \<le> 2 ^ 53"
  shows "roundToDouble n = n"
proof (cases "\<bar>n\<bar> = 2 ^ 53")
  case True
  then have "nat \<bar>n\<bar> = 2 ^ 53"
    by simp
  then have "bit_length (nat \<bar>n\<bar>) = 54"
    by (simp only: bit_length_power)
  then have "spacing n = 2"
    by (simp add: spacing_def)
  moreover have "n = 2 ^ 53 \<or> n = - (2 ^ 53)"
    using True by linarith
  ultimately show ?thesis
    by (auto simp: roundToDouble_def Let_def)
next
  case False
  then have "nat \<bar>n\<bar> < 2 ^ 53"
    using assms by simp
  from bit_length_le[OF this] have "spacing n = 1"
    by (simp add: spacing_def)
  then show ?thesis
    by (simp add: roundToDouble_def Let_def)
qed

lemma incrementMoves_exact: "0 \<le> m \<Longrightarrow> m < 2 ^ 53 \<Longrightarrow> incrementMoves m = m + 1"
  unfolding incrementMoves_def by (rule roundToDouble_exact) simp

lemma bit_length_gt: "2 ^ k \<le> n \<Longrightarrow> k < bit_length n"
proof (induction k arbitrary: n)
  case 0
  then show ?case by (subst bit_length.simps) simp
next
  case (Suc k)
  have pos: "0 < (2::nat) ^ k"
    by simp
  from Suc.prems have le: "2 * 2 ^ k \<le> n"
    by simp
  then have "2 ^ k \<le> n div 2"
    by arith
  moreover from pos le have "n \<noteq> 0"
    by arith
  ultimately have "k < bit_length (n div 2)" "n \<noteq> 0"
    using Suc.IH by simp_all
  then show ?case
    by (subst bit_length.simps) simp
qed

lemma spacing_binade:
  assumes "2 ^ (52 + k) \<le> \<bar>n\<bar>" "\<bar>n\<bar> < 2 ^ (53 + k)"
  shows "spacing n = 2 ^ k"
proof -
  have "2 ^ (52 + k) \<le> nat \<bar>n\<bar>" "nat \<bar>n\<bar> < 2 ^ (53 + k)"
    using assms by (simp_all add: le_nat_iff nat_less_iff)
  from bit_length_gt[OF this(1)] bit_length_le[OF this(2)]
  have "bit_length (nat \<bar>n\<bar>) = 53 + k"
    by simp
  then show ?thesis
    by (simp add: spacing_def)
qed

lemma incrementMoves_limit: "incrementMoves (2 ^ 53) = 2 ^ 53"
proof -
  have "spacing (2 ^ 53 + 1) = 2 ^ 1"
    by (rule spacing_binade) simp_all
  then show ?thesis
    by (simp add: incrementMoves_def roundToDouble_def Let_def)
qed

text \<open>
  Claim C1 says that a move at an index outside 0..24 fails with an
  \<^verbatim>\<open>OutOfRangeIndex\<close> error and leaves the snapshot as it was. \<open>makeMove\<close> has no
  such test: at index 25 on the solved board it returns a snapshot with cell 20 set
  and the counter at 1.
\<close>

theorem makeMove_out_of_range_counterexample:
  "makeMove \<lparr>board = replicate 25 0, moves = 0\<rparr> 25 = \<lparr>board = (replicate 25 0)[20 := 1], moves = 1\<rparr>
   \<and> makeMove \<lparr>board = replicate 25 0, moves = 0\<rparr> 25 \<noteq> \<lparr>board = replicate 25 0, moves = 0\<rparr>"
  by (simp add: makeMove_def incrementMoves_exact toggleCell_25)

lemma flip_changes: "k < length b \<Longrightarrow> b[k := (b ! k) XOR 1] \<noteq> (b :: int list)"
proof
  assume k: "k < length b" and "b[k := (b ! k) XOR 1] = b"
  then have "b[k := (b ! k) XOR 1] ! k = b ! k"
    by simp
  then show False
    using k by (simp add: xor_one_neq)
qed

text \<open>
  Claim C1, as the code has it. \<open>makeMove\<close> has no range check and no error result.
  For every snapshot with a board of 25 bits and a counter from 0 to \<open>2 ^ 53 - 1\<close>,
  and for every integer index, in range or not, it returns the snapshot with the board
  \<open>toggleCell board index\<close>, again 25 bits, and the counter advanced by one. An index
  from 25 to 29 is not rejected: it flips the single cell \<open>index - 5\<close>, so the board
  changes.
\<close>

theorem makeMove_unchecked:
  assumes "length (board s) = 25" and "set (board s) \<subseteq> {0, 1}"
    and "0 \<le> moves s" and "moves s < 2 ^ 53"
  shows "moves (makeMove s i) = moves s + 1
         \<and> board (makeMove s i) = toggleCell (board s) i
         \<and> length (board (makeMove s i)) = 25
         \<and> set (board (makeMove s i)) \<subseteq> {0, 1}
         \<and> (25 \<le> i \<and> i < 30 \<longrightarrow>
              board (makeMove s i) = (board s)[nat (i - 5) := (board s ! nat (i - 5)) XOR 1]
              \<and> board (makeMove s i) \<noteq> board s)"
proof -
  have "(board s)[nat (i - 5) := (board s ! nat (i - 5)) XOR 1] \<noteq> board s" if "25 \<le> i" "i < 30"
    using that assms(1) by (intro flip_changes) simp
  then show ?thesis
    using assms toggleCell_past_end[of "board s" i] toggleCell_bits[of "board s" i]
    by (simp add: makeMove_def incrementMoves_exact toggleCell_length bits_iff)
qed

theorem makeMove_unchecked_witness:
  "moves (makeMove \<lparr>board = replicate 25 0, moves = 3\<rparr> 25) = 4
   \<and> board (makeMove \<lparr>board = replicate 25 0, moves = 3\<rparr> 25) = (replicate 25 0)[20 := 1]
   \<and> board (makeMove \<lparr>board = replicate 25 0, moves = 3\<rparr> 25) \<noteq> replicate 25 0"
proof -
  have "length (board \<lparr>board = replicate 25 0, moves = 3\<rparr>) = 25"
    "set (board \<lparr>board = replicate 25 (0::int), moves = 3\<rparr>) \<subseteq> {0, 1}"
    "0 \<le> moves \<lparr>board = replicate 25 0, moves = 3\<rparr>"
    "moves \<lparr>board = replicate 25 0, moves = 3\<rparr> < 2 ^ 53"
    by simp_all
  from makeMove_unchecked[OF this, of 25] show ?thesis
    by (auto simp: toggleCell_25)
qed

text \<open>
  At \<open>2 ^ 53\<close> the counter no longer advances: a move at an index that flips no cell
  then returns the snapshot it was given.
\<close>

lemma makeMove_counter_limit:
  "makeMove \<lparr>board = replicate 25 0, moves = 2 ^ 53\<rparr> 100 = \<lparr>board = replicate 25 0, moves = 2 ^ 53\<rparr>"
proof -
  have "toggleCell (replicate 25 0) 100 = replicate 25 0"
    by (simp add: toggleCell_def toggle_offset_def flip_at_def grid_defs)
  then show ?thesis
    using incrementMoves_limit by (simp add: makeMove_def)
qed

section \<open>Correctness of the GF(2) solver\<close>

subsection \<open>Bits\<close>

lemma is_bit_simps [simp]: "is_bit 0" "is_bit 1"
  by (simp_all add: is_bit_def)

lemma is_bit_xor: "is_bit a \<Longrightarrow> is_bit b \<Longrightarrow> is_bit (a XOR b)"
  by (auto simp: is_bit_def)

lemma is_bit_and_one: "is_bit a \<Longrightarrow> a AND 1 = a"
  by (auto simp: is_bit_def)

lemma one_and_bit: "is_bit a \<Longrightarrow> 1 AND a = a"
  by (auto simp: is_bit_def)

lemma is_bit_nth: "list_all is_bit xs \<Longrightarrow> i < length xs \<Longrightarrow> is_bit (xs ! i)"
  by (simp add: list_all_length)

lemma wf_matrix_entry: "wf_matrix R C M \<Longrightarrow> r < R \<Longrightarrow> c < C \<Longrightarrow> is_bit (M ! r ! c)"
  by (simp add: wf_matrix_def list_all_length)

lemma wf_matrix_row: "wf_matrix R C M \<Longrightarrow> r < R \<Longrightarrow> length (M ! r) = C"
  by (simp add: wf_matrix_def)

subsection \<open>Dot products over GF(2)\<close>

lemma dotn_cong: "(\<And>j. j < n \<Longrightarrow> r ! j = r' ! j) \<Longrightarrow> dotn n r x = dotn n r' x"
  by (induction n) simp_all

lemma dotn_zero: "(\<And>j. j < n \<Longrightarrow> r ! j = 0) \<Longrightarrow> dotn n r x = 0"
  by (induction n) simp_all

lemma and_xor_left: "((a::int) XOR b) AND c = (a AND c) XOR (b AND c)"
  by (simp add: bit.conj_xor_distrib2)

lemma dotn_xor:
  "(\<And>j. j < n \<Longrightarrow> r ! j = (a ! j) XOR (b ! j)) \<Longrightarrow> dotn n r x = dotn n a x XOR dotn n b x"
proof (induction n)
  case 0
  then show ?case by simp
next
  case (Suc n)
  have "dotn n r x = dotn n a x XOR dotn n b x"
    using Suc by simp
  moreover have "r ! n = (a ! n) XOR (b ! n)"
    using Suc.prems by simp
  ultimately show ?case
    by (simp add: and_xor_left xor.assoc xor.left_commute)
qed

lemma dotn_zero_terms: "(\<And>c. c < n \<Longrightarrow> (r ! c) AND (x ! c) = 0) \<Longrightarrow> dotn n r x = 0"
  by (induction n) simp_all

lemma dotn_single:
  "j < n \<Longrightarrow> (\<And>c. c < n \<Longrightarrow> c \<noteq> j \<Longrightarrow> (r ! c) AND (x ! c) = 0)
     \<Longrightarrow> dotn n r x = (r ! j) AND (x ! j)"
proof (induction n)
  case 0
  then show ?case by simp
next
  case (Suc n)
  show ?case
  proof (cases "j = n")
    case True
    have "dotn n r x = 0"
      using Suc.prems(2) True by (intro dotn_zero_terms) simp
    then show ?thesis using True by simp
  next
    case False
    then have "dotn n r x = (r ! j) AND (x ! j)"
      using Suc by simp
    moreover have "(r ! n) AND (x ! n) = 0"
      using Suc.prems False by simp
    ultimately show ?thesis by simp
  qed
qed

lemma dotn_flip:
  "i < length x \<Longrightarrow> dotn n r (x[i := (x ! i) XOR 1]) = dotn n r x XOR (if i < n then (r ! i) AND 1 else 0)"
proof (induction n)
  case 0
  then show ?case by simp
next
  case (Suc n)
  have and_xor_right: "\<And>a b c::int. a AND (b XOR c) = (a AND b) XOR (a AND c)"
    by (simp add: bit.conj_xor_distrib)
  show ?case
    using Suc
    by (cases "i = n") (auto simp: nth_list_update and_xor_right xor.assoc xor.commute xor.left_commute)
qed

lemma solves_iff: "solves M v x \<longleftrightarrow> (\<forall>r<length M. dotn (length x) (M ! r) x = v ! r)"
  by (auto simp: solves_def list_all_iff)

subsection \<open>The loops of the solver\<close>

lemma find_pivot_spec:
  "p \<le> rows \<Longrightarrow>
     p \<le> find_pivot M rows col p \<and> find_pivot M rows col p \<le> rows \<and>
     (\<forall>r. p \<le> r \<and> r < find_pivot M rows col p \<longrightarrow> M ! r ! col = 0) \<and>
     (find_pivot M rows col p < rows \<longrightarrow> M ! (find_pivot M rows col p) ! col \<noteq> 0)"
proof (induction M rows col p rule: find_pivot.induct)
  case (1 matrix rows col pivotRow)
  show ?case
  proof (cases "pivotRow < rows \<and> matrix ! pivotRow ! col = 0")
    case True
    let ?f = "find_pivot matrix rows col (pivotRow + 1)"
    have eq: "find_pivot matrix rows col pivotRow = ?f"
      using True by (subst find_pivot.simps) simp
    have "pivotRow + 1 \<le> rows" using True by simp
    from "1.IH"[OF True this]
    have IH: "pivotRow + 1 \<le> ?f" "?f \<le> rows"
      "\<And>r. pivotRow + 1 \<le> r \<Longrightarrow> r < ?f \<Longrightarrow> matrix ! r ! col = 0"
      "?f < rows \<longrightarrow> matrix ! ?f ! col \<noteq> 0"
      by blast+
    have "matrix ! r ! col = 0" if "pivotRow \<le> r" "r < ?f" for r
    proof (cases "r = pivotRow")
      case True
      then show ?thesis using \<open>pivotRow < rows \<and> matrix ! pivotRow ! col = 0\<close> by simp
    next
      case False
      then show ?thesis using that IH(3)[of r] by simp
    qed
    then show ?thesis
      unfolding eq using IH by auto
  next
    case False
    then have eq: "find_pivot matrix rows col pivotRow = pivotRow"
      by (subst find_pivot.simps) auto
    show ?thesis
      unfolding eq using False "1.prems" by auto
  qed
qed

lemma xor_row_spec:
  "k \<le> cols \<Longrightarrow> cols \<le> length target \<Longrightarrow>
     length (xor_row target pivot cols k) = length target \<and>
     (\<forall>j<length target. xor_row target pivot cols k ! j =
        (if k \<le> j \<and> j < cols then (target ! j) XOR (pivot ! j) else target ! j))"
proof (induction target pivot cols k rule: xor_row.induct)
  case (1 target pivot cols k)
  show ?case
  proof (cases "k < cols")
    case True
    let ?t = "target[k := (target ! k) XOR (pivot ! k)]"
    have eq: "xor_row target pivot cols k = xor_row ?t pivot cols (k + 1)"
      using True by (subst xor_row.simps) simp
    have "k + 1 \<le> cols" "cols \<le> length ?t"
      using True "1.prems" by simp_all
    from "1.IH"[OF True this]
    have len: "length (xor_row ?t pivot cols (k + 1)) = length target"
      and nth: "\<And>j. j < length target \<Longrightarrow> xor_row ?t pivot cols (k + 1) ! j =
        (if k + 1 \<le> j \<and> j < cols then (?t ! j) XOR (pivot ! j) else ?t ! j)"
      by simp_all
    show ?thesis
      unfolding eq
    proof (intro conjI allI impI)
      show "length (xor_row ?t pivot cols (k + 1)) = length target"
        by (rule len)
    next
      fix j
      assume j: "j < length target"
      consider "j = k" | "j < k" | "k < j"
        by arith
      then show "xor_row ?t pivot cols (k + 1) ! j =
          (if k \<le> j \<and> j < cols then (target ! j) XOR (pivot ! j) else target ! j)"
        by cases (use nth[OF j] True "1.prems" in \<open>auto simp: nth_list_update\<close>)
    qed
  next
    case False
    then have eq: "xor_row target pivot cols k = target"
      by (subst xor_row.simps) simp
    show ?thesis
      unfolding eq using False by auto
  qed
qed

lemma swap_entries_length [simp]: "length (swap_entries i j xs) = length xs"
  by (simp add: swap_entries_def)

lemma swap_entries_nth:
  "i < length xs \<Longrightarrow> j < length xs \<Longrightarrow> k < length xs \<Longrightarrow>
     swap_entries i j xs ! k = (if k = i then xs ! j else if k = j then xs ! i else xs ! k)"
  by (auto simp: swap_entries_def nth_list_update)

lemma swap_entries_same [simp]: "swap_entries i i xs = xs"
  by (simp add: swap_entries_def)

lemma eliminate_spec:
  assumes "length M = rows" "length v = rows" "cur < rows"
  shows "\<exists>M' v'. eliminate rows cols col cur row (M, v) = (M', v') \<and>
           length M' = rows \<and> length v' = rows \<and>
           (\<forall>r<rows. M' ! r = (if row \<le> r \<and> r \<noteq> cur \<and> M ! r ! col = 1
                                then xor_row (M ! r) (M ! cur) cols col else M ! r)) \<and>
           (\<forall>r<rows. v' ! r = (if row \<le> r \<and> r \<noteq> cur \<and> M ! r ! col = 1
                                then (v ! r) XOR (v ! cur) else v ! r))"
  using assms
proof (induction "rows - row" arbitrary: row M v)
  case 0
  then have "eliminate rows cols col cur row (M, v) = (M, v)"
    by (subst eliminate.simps) simp
  with 0 show ?case by auto
next
  case (Suc n)
  then have lt: "row < rows" by simp
  define hit where "hit \<longleftrightarrow> row \<noteq> cur \<and> M ! row ! col = 1"
  define M1 where "M1 = (if hit then M[row := xor_row (M ! row) (M ! cur) cols col] else M)"
  define v1 where "v1 = (if hit then v[row := (v ! row) XOR (v ! cur)] else v)"
  have eq: "eliminate rows cols col cur row (M, v) = eliminate rows cols col cur (row + 1) (M1, v1)"
    using lt by (subst eliminate.simps) (simp add: M1_def v1_def hit_def)
  have len1: "length M1 = rows" "length v1 = rows"
    using Suc.prems by (simp_all add: M1_def v1_def)
  have M1_other: "M1 ! r = M ! r" if "r \<noteq> row" for r
    using that by (simp add: M1_def)
  have v1_other: "v1 ! r = v ! r" if "r \<noteq> row" for r
    using that by (simp add: v1_def)
  have M1_cur: "M1 ! cur = M ! cur"
    by (simp add: M1_def hit_def)
  have v1_cur: "v1 ! cur = v ! cur"
    by (simp add: v1_def hit_def)
  have M1_row: "M1 ! row = (if hit then xor_row (M ! row) (M ! cur) cols col else M ! row)"
    using lt Suc.prems by (simp add: M1_def)
  have v1_row: "v1 ! row = (if hit then (v ! row) XOR (v ! cur) else v ! row)"
    using lt Suc.prems by (simp add: v1_def)
  have "n = rows - (row + 1)"
    using Suc.hyps(2) by simp
  from Suc.hyps(1)[OF this len1 Suc.prems(3)]
  obtain M' v' where res: "eliminate rows cols col cur (row + 1) (M1, v1) = (M', v')"
    and len: "length M' = rows" "length v' = rows"
    and Mn: "\<And>r. r < rows \<Longrightarrow> M' ! r = (if row + 1 \<le> r \<and> r \<noteq> cur \<and> M1 ! r ! col = 1
                                then xor_row (M1 ! r) (M1 ! cur) cols col else M1 ! r)"
    and vn: "\<And>r. r < rows \<Longrightarrow> v' ! r = (if row + 1 \<le> r \<and> r \<noteq> cur \<and> M1 ! r ! col = 1
                                then (v1 ! r) XOR (v1 ! cur) else v1 ! r)"
    by blast
  have "M' ! r = (if row \<le> r \<and> r \<noteq> cur \<and> M ! r ! col = 1
                   then xor_row (M ! r) (M ! cur) cols col else M ! r)" if "r < rows" for r
  proof (cases "r = row")
    case True
    then show ?thesis
      using Mn[OF that] M1_row by (simp add: hit_def)
  next
    case False
    then have "row + 1 \<le> r \<longleftrightarrow> row \<le> r" by arith
    then show ?thesis
      using Mn[OF that] M1_other[OF False] M1_cur by simp
  qed
  moreover have "v' ! r = (if row \<le> r \<and> r \<noteq> cur \<and> M ! r ! col = 1
                   then (v ! r) XOR (v ! cur) else v ! r)" if "r < rows" for r
  proof (cases "r = row")
    case True
    then show ?thesis
      using vn[OF that] v1_row by (simp add: hit_def)
  next
    case False
    then have "row + 1 \<le> r \<longleftrightarrow> row \<le> r" by arith
    then show ?thesis
      using vn[OF that] v1_other[OF False] M1_other[OF False] v1_cur by simp
  qed
  ultimately show ?case
    unfolding eq res using len by simp
qed

lemma swap_solves:
  assumes "length M = R" "length v = R" "i < R" "j < R"
  shows "solves (swap_entries i j M) (swap_entries i j v) x = solves M v x"
proof -
  have nth: "dotn (length x) (swap_entries i j M ! r) x = swap_entries i j v ! r \<longleftrightarrow>
        dotn (length x) (M ! (if r = i then j else if r = j then i else r)) x
           = v ! (if r = i then j else if r = j then i else r)" if "r < R" for r
    using that assms by (simp add: swap_entries_nth)
  show ?thesis
  proof
    assume L: "solves (swap_entries i j M) (swap_entries i j v) x"
    show "solves M v x"
      unfolding solves_iff
    proof (intro allI impI)
      fix r assume "r < length M"
      then have r: "r < R" using assms by simp
      let ?r' = "if r = i then j else if r = j then i else r"
      have "?r' < R" using r assms by simp
      from L have "dotn (length x) (swap_entries i j M ! ?r') x = swap_entries i j v ! ?r'"
        using \<open>?r' < R\<close> assms unfolding solves_iff by simp
      then show "dotn (length x) (M ! r) x = v ! r"
        using nth[OF \<open>?r' < R\<close>] by (auto split: if_splits)
    qed
  next
    assume Rr: "solves M v x"
    show "solves (swap_entries i j M) (swap_entries i j v) x"
      unfolding solves_iff
    proof (intro allI impI)
      fix r assume "r < length (swap_entries i j M)"
      then have r: "r < R" using assms by simp
      let ?r' = "if r = i then j else if r = j then i else r"
      have "?r' < R" using r assms by simp
      then have "dotn (length x) (M ! ?r') x = v ! ?r'"
        using Rr assms unfolding solves_iff by simp
      then show "dotn (length x) (swap_entries i j M ! r) x = swap_entries i j v ! r"
        using nth[OF r] by simp
    qed
  qed
qed

lemma swap_bits:
  "i < length v \<Longrightarrow> j < length v \<Longrightarrow> list_all is_bit v \<Longrightarrow> list_all is_bit (swap_entries i j v)"
  by (auto simp: list_all_length swap_entries_nth)

lemma swap_echelon:
  assumes ech: "echelon R C col M piv cur" and p: "cur \<le> p" "p < R"
  shows "echelon R C col (swap_entries cur p M) piv cur"
proof -
  from ech have wf: "wf_matrix R C M" and lM: "length M = R"
    and pivs: "\<And>r. r < cur \<Longrightarrow> 0 \<le> piv ! r \<and> nat (piv ! r) < col \<and> M ! r ! nat (piv ! r) = 1 \<and>
        (\<forall>r'<R. r' \<noteq> r \<longrightarrow> M ! r' ! nat (piv ! r) = 0)"
    and zeros: "\<And>r c. r < R \<Longrightarrow> cur \<le> r \<Longrightarrow> c < col \<Longrightarrow> M ! r ! c = 0"
    by (auto simp: echelon_def wf_matrix_def)
  have cur: "cur < R" using p by simp
  let ?s = "\<lambda>r. if r = cur then p else if r = p then cur else r"
  have nth: "swap_entries cur p M ! r = M ! ?s r" if "r < R" for r
    using that lM p cur by (simp add: swap_entries_nth)
  have sR: "?s r < R" if "r < R" for r
    using that p cur by simp
  have s_low: "?s r = r" if "r < cur" for r
    using that p by simp
  have s_high: "cur \<le> ?s r" if "cur \<le> r" for r
    using that p by simp
  have s_neq: "?s r' \<noteq> r" if "r' \<noteq> r" "r < cur" for r r'
    using that p by auto
  have wf': "wf_matrix R C (swap_entries cur p M)"
    using wf lM nth sR unfolding wf_matrix_def by simp
  have pivs': "0 \<le> piv ! r \<and> nat (piv ! r) < col \<and> swap_entries cur p M ! r ! nat (piv ! r) = 1 \<and>
        (\<forall>r'<R. r' \<noteq> r \<longrightarrow> swap_entries cur p M ! r' ! nat (piv ! r) = 0)" if "r < cur" for r
  proof -
    have rR: "r < R" using that cur by simp
    have "swap_entries cur p M ! r' ! nat (piv ! r) = 0" if "r' < R" "r' \<noteq> r" for r'
      using pivs[OF \<open>r < cur\<close>] sR[OF that(1)] s_neq[OF that(2) \<open>r < cur\<close>] nth[OF that(1)]
      by simp
    then show ?thesis
      using pivs[OF that] nth[OF rR] s_low[OF that] by simp
  qed
  have zeros': "swap_entries cur p M ! r ! c = 0" if "r < R" "cur \<le> r" "c < col" for r c
    using zeros[OF sR[OF that(1)] s_high[OF that(2)] that(3)] nth[OF that(1)] by simp
  show ?thesis
    unfolding echelon_def using ech wf' pivs' zeros' by (simp add: echelon_def)
qed

lemma echelon_no_pivot:
  assumes ech: "echelon R C col M piv cur" and "col < C"
    and none: "\<And>r. cur \<le> r \<Longrightarrow> r < R \<Longrightarrow> M ! r ! col = 0"
  shows "echelon R C (col + 1) M piv cur"
proof -
  have "M ! r ! c = 0" if "r < R" "cur \<le> r" "c < col + 1" for r c
  proof (cases "c = col")
    case True
    then show ?thesis using none that by simp
  next
    case False
    then have "c < col" using that by simp
    then show ?thesis using ech that by (simp add: echelon_def)
  qed
  moreover have "nat (piv ! r) < col + 1" if "r < cur" for r
    using ech that by (auto simp: echelon_def less_Suc_eq)
  ultimately show ?thesis
    using ech \<open>col < C\<close> unfolding echelon_def by simp
qed

lemma eliminate_echelon:
  assumes ech: "echelon R C col M piv cur" and cur: "cur < R" and col: "col < C"
    and one: "M ! cur ! col = 1"
    and v: "length v = R" "list_all is_bit v"
    and res: "eliminate R C col cur 0 (M, v) = (M', v')"
  shows "echelon R C (col + 1) M' (piv[cur := int col]) (cur + 1) \<and>
         length v' = R \<and> list_all is_bit v' \<and>
         (\<forall>x. length x = C \<longrightarrow> solves M' v' x = solves M v x)"
proof -
  from ech have wf: "wf_matrix R C M" and lM: "length M = R" and lp: "length piv = R"
    and pivs: "\<And>r. r < cur \<Longrightarrow> 0 \<le> piv ! r \<and> nat (piv ! r) < col \<and> M ! r ! nat (piv ! r) = 1 \<and>
        (\<forall>r'<R. r' \<noteq> r \<longrightarrow> M ! r' ! nat (piv ! r) = 0)"
    and zeros: "\<And>r c. r < R \<Longrightarrow> cur \<le> r \<Longrightarrow> c < col \<Longrightarrow> M ! r ! c = 0"
    by (auto simp: echelon_def wf_matrix_def)
  define hit where "hit r \<longleftrightarrow> r \<noteq> cur \<and> M ! r ! col = 1" for r
  from eliminate_spec[OF lM v(1) cur, of C col 0] res
  have lM': "length M' = R" and lv': "length v' = R"
    and Mrow: "\<And>r. r < R \<Longrightarrow> M' ! r = (if hit r then xor_row (M ! r) (M ! cur) C col else M ! r)"
    and vrow: "\<And>r. r < R \<Longrightarrow> v' ! r = (if hit r then (v ! r) XOR (v ! cur) else v ! r)"
    by (auto simp: hit_def)
  have rowlen: "length (M ! r) = C" if "r < R" for r
    using wf that by (simp add: wf_matrix_def)
  have bit: "is_bit (M ! r ! c)" if "r < R" "c < C" for r c
    using wf_matrix_entry[OF wf that] .
  have xr_len: "length (xor_row (M ! r) (M ! cur) C col) = C" if "r < R" for r
    using xor_row_spec[of col C "M ! r" "M ! cur"] col rowlen[OF that] by simp
  have xr_nth: "xor_row (M ! r) (M ! cur) C col ! j =
      (if col \<le> j then (M ! r ! j) XOR (M ! cur ! j) else M ! r ! j)" if "r < R" "j < C" for r j
    using xor_row_spec[of col C "M ! r" "M ! cur"] col rowlen[OF that(1)] that(2) by simp
  have cur_zero: "M ! cur ! j = 0" if "j < col" for j
    using zeros[OF cur _ that] by simp
  have entry: "M' ! r ! j = (if hit r then (M ! r ! j) XOR (M ! cur ! j) else M ! r ! j)"
    if "r < R" "j < C" for r j
    using Mrow[OF that(1)] xr_nth[OF that] cur_zero[of j] by (cases "col \<le> j") auto
  have low: "M' ! r ! j = M ! r ! j" if "r < R" "j < col" for r j
    using entry[OF that(1), of j] that(2) col cur_zero[OF that(2)] by simp
  have not_hit_cur: "\<not> hit cur"
    by (simp add: hit_def)
  have colz: "M' ! r ! col = 0" if "r < R" "r \<noteq> cur" for r
  proof (cases "hit r")
    case True
    then show ?thesis
      using entry[OF that(1) col] one by (simp add: hit_def)
  next
    case False
    then have "M ! r ! col \<noteq> 1" using that by (simp add: hit_def)
    then have "M ! r ! col = 0" using bit[OF that(1) col] by (simp add: is_bit_def)
    then show ?thesis using entry[OF that(1) col] False by simp
  qed
  have wf': "wf_matrix R C M'"
    unfolding wf_matrix_def
  proof (intro conjI allI impI)
    show "length M' = R" by (rule lM')
  next
    fix r assume r: "r < R"
    show "length (M' ! r) = C"
      using Mrow[OF r] xr_len[OF r] rowlen[OF r] by simp
    then show "list_all is_bit (M' ! r)"
      using entry[OF r] bit[OF r] bit[OF cur]
      by (auto simp: list_all_length is_bit_xor)
  qed
  have pivs': "0 \<le> piv[cur := int col] ! r \<and> nat (piv[cur := int col] ! r) < col + 1 \<and>
        M' ! r ! nat (piv[cur := int col] ! r) = 1 \<and>
        (\<forall>r'<R. r' \<noteq> r \<longrightarrow> M' ! r' ! nat (piv[cur := int col] ! r) = 0)" if "r < cur + 1" for r
  proof (cases "r = cur")
    case True
    have "M' ! cur ! col = 1"
      using entry[OF cur col] not_hit_cur one by simp
    then show ?thesis
      using True lp cur colz by simp
  next
    case False
    then have r: "r < cur" using that by simp
    then have rR: "r < R" using cur by simp
    have pr: "piv[cur := int col] ! r = piv ! r"
      using False by simp
    from pivs[OF r] have c: "0 \<le> piv ! r" "nat (piv ! r) < col" "M ! r ! nat (piv ! r) = 1"
      and others: "\<And>r'. r' < R \<Longrightarrow> r' \<noteq> r \<Longrightarrow> M ! r' ! nat (piv ! r) = 0"
      by auto
    show ?thesis
      unfolding pr using c others low[OF _ c(2)] rR by simp
  qed
  have zeros': "M' ! r ! c = 0" if "r < R" "cur + 1 \<le> r" "c < col + 1" for r c
  proof (cases "c = col")
    case True
    then show ?thesis using colz[OF that(1)] that(2) by simp
  next
    case False
    then have "c < col" using that by simp
    then show ?thesis using low[OF that(1)] zeros[OF that(1)] that(2) by simp
  qed
  have ech': "echelon R C (col + 1) M' (piv[cur := int col]) (cur + 1)"
    unfolding echelon_def using wf' lp cur col pivs' zeros' by simp
  have bits': "list_all is_bit v'"
    using lv' vrow v cur by (auto simp: list_all_length is_bit_xor)
  have sol: "solves M' v' x = solves M v x" if lx: "length x = C" for x
  proof -
    have dot: "dotn C (M' ! r) x = (if hit r then dotn C (M ! r) x XOR dotn C (M ! cur) x
                                    else dotn C (M ! r) x)" if "r < R" for r
    proof (cases "hit r")
      case True
      have "dotn C (M' ! r) x = dotn C (M ! r) x XOR dotn C (M ! cur) x"
        by (rule dotn_xor) (use entry[OF that] True in simp)
      then show ?thesis using True by simp
    next
      case False
      have "dotn C (M' ! r) x = dotn C (M ! r) x"
        by (rule dotn_cong) (use entry[OF that] False in simp)
      then show ?thesis using False by simp
    qed
    show ?thesis
    proof
      assume L: "solves M' v' x"
      then have L': "\<And>r. r < R \<Longrightarrow> dotn C (M' ! r) x = v' ! r"
        using lM' lx by (simp add: solves_iff)
      have c: "dotn C (M ! cur) x = v ! cur"
        using L'[OF cur] dot[OF cur] vrow[OF cur] not_hit_cur by simp
      have "dotn C (M ! r) x = v ! r" if "r < R" for r
      proof (cases "hit r")
        case True
        then have "dotn C (M ! r) x XOR dotn C (M ! cur) x = (v ! r) XOR (v ! cur)"
          using L'[OF that] dot[OF that] vrow[OF that] by simp
        then have "(dotn C (M ! r) x XOR v ! cur) XOR v ! cur = ((v ! r) XOR (v ! cur)) XOR v ! cur"
          using c by simp
        then show ?thesis
          by (simp add: xor.assoc)
      next
        case False
        then show ?thesis
          using L'[OF that] dot[OF that] vrow[OF that] by simp
      qed
      then show "solves M v x"
        using lM lx by (simp add: solves_iff)
    next
      assume Rr: "solves M v x"
      then have R': "\<And>r. r < R \<Longrightarrow> dotn C (M ! r) x = v ! r"
        using lM lx by (simp add: solves_iff)
      have "dotn C (M' ! r) x = v' ! r" if "r < R" for r
        using dot[OF that] vrow[OF that] R'[OF that] R'[OF cur] by simp
      then show "solves M' v' x"
        using lM' lx by (simp add: solves_iff)
    qed
  qed
  show ?thesis
    using ech' lv' bits' sol by blast
qed

lemma pivot_step_inv:
  assumes ech: "echelon R C col M piv cur" and cur: "cur < R" and col: "col < C"
    and v: "length v = R" "list_all is_bit v"
  shows "\<exists>M' v' piv' cur'. pivot_step R C col (M, v, piv, cur) = (M', v', piv', cur') \<and>
           echelon R C (col + 1) M' piv' cur' \<and> length v' = R \<and> list_all is_bit v' \<and>
           (\<forall>x. length x = C \<longrightarrow> solves M' v' x = solves M v x)"
proof -
  from ech have wf: "wf_matrix R C M" and lM: "length M = R"
    by (auto simp: echelon_def wf_matrix_def)
  define p where "p = find_pivot M R col cur"
  from find_pivot_spec[of cur R M col] cur
  have fp: "cur \<le> p" "p \<le> R" "\<And>r. cur \<le> r \<Longrightarrow> r < p \<Longrightarrow> M ! r ! col = 0"
    "p < R \<Longrightarrow> M ! p ! col \<noteq> 0"
    unfolding p_def by auto
  show ?thesis
  proof (cases "p = R")
    case True
    then have eq: "pivot_step R C col (M, v, piv, cur) = (M, v, piv, cur)"
      by (simp add: pivot_step_def p_def[symmetric])
    have "echelon R C (col + 1) M piv cur"
      using echelon_no_pivot[OF ech col] fp(3) True by simp
    then show ?thesis
      unfolding eq using v by simp
  next
    case False
    then have pR: "p < R" using fp(2) by simp
    have one: "M ! p ! col = 1"
      using fp(4)[OF pR] wf_matrix_entry[OF wf pR col] by (simp add: is_bit_def)
    define M1 where "M1 = swap_entries cur p M"
    define v1 where "v1 = swap_entries cur p v"
    obtain M2 v2 where el: "eliminate R C col cur 0 (M1, v1) = (M2, v2)"
      by (cases "eliminate R C col cur 0 (M1, v1)")
    have eq: "pivot_step R C col (M, v, piv, cur) = (M2, v2, piv[cur := int col], cur + 1)"
      using False el
      by (cases "p = cur") (simp_all add: pivot_step_def p_def[symmetric] M1_def v1_def)
    have ech1: "echelon R C col M1 piv cur"
      unfolding M1_def by (rule swap_echelon[OF ech fp(1) pR])
    have one1: "M1 ! cur ! col = 1"
      using one lM cur pR by (simp add: M1_def swap_entries_nth)
    have v1: "length v1 = R" "list_all is_bit v1"
      using v cur pR by (simp_all add: v1_def swap_bits)
    have sol1: "solves M1 v1 x = solves M v x" for x
      unfolding M1_def v1_def by (rule swap_solves[OF lM v(1) cur pR])
    from eliminate_echelon[OF ech1 cur col one1 v1 el] sol1
    show ?thesis
      unfolding eq by simp
  qed
qed

lemma reduce_inv:
  assumes "echelon R C col M piv cur" "length v = R" "list_all is_bit v"
  shows "\<exists>M' v' piv' cur' col'. reduce R C col (M, v, piv, cur) = (M', v', piv', cur') \<and>
           echelon R C col' M' piv' cur' \<and> (col' = C \<or> cur' = R) \<and>
           length v' = R \<and> list_all is_bit v' \<and>
           (\<forall>x. length x = C \<longrightarrow> solves M' v' x = solves M v x)"
  using assms
proof (induction "C - col" arbitrary: col M v piv cur)
  case 0
  then have "col = C"
    by (simp add: echelon_def)
  then have "reduce R C col (M, v, piv, cur) = (M, v, piv, cur)"
    by (subst reduce.simps) simp
  with 0 \<open>col = C\<close> show ?case by auto
next
  case (Suc n)
  then have col: "col < C" by simp
  show ?case
  proof (cases "cur < R")
    case True
    from pivot_step_inv[OF Suc.prems(1) True col Suc.prems(2,3)]
    obtain M1 v1 piv1 cur1 where
      st: "pivot_step R C col (M, v, piv, cur) = (M1, v1, piv1, cur1)"
      and ech1: "echelon R C (col + 1) M1 piv1 cur1"
      and v1: "length v1 = R" "list_all is_bit v1"
      and sol1: "\<And>x. length x = C \<Longrightarrow> solves M1 v1 x = solves M v x"
      by blast
    have eq: "reduce R C col (M, v, piv, cur) = reduce R C (col + 1) (M1, v1, piv1, cur1)"
      using col True by (subst reduce.simps) (simp add: st)
    have "n = C - (col + 1)"
      using Suc.hyps(2) by simp
    from Suc.hyps(1)[OF this ech1 v1] sol1
    show ?thesis
      unfolding eq by auto
  next
    case False
    then have "cur = R"
      using Suc.prems(1) by (simp add: echelon_def)
    moreover have "reduce R C col (M, v, piv, cur) = (M, v, piv, cur)"
      using False by (subst reduce.simps) simp
    ultimately show ?thesis
      using Suc.prems by auto
  qed
qed

lemma inconsistent_iff:
  "inconsistent M v rows row \<longleftrightarrow>
     (\<exists>r. row \<le> r \<and> r < rows \<and> list_all (\<lambda>e. e = 0) (M ! r) \<and> v ! r = 1)"
proof (induction M v rows row rule: inconsistent.induct)
  case (1 matrix vector rows row)
  show ?case
  proof (cases "row < rows")
    case True
    show ?thesis
    proof (cases "list_all (\<lambda>e. e = 0) (matrix ! row) \<and> vector ! row = 1")
      case hit: True
      then have "inconsistent matrix vector rows row"
        using True by (subst inconsistent.simps) simp
      then show ?thesis
        using hit True by auto
    next
      case miss: False
      then have "inconsistent matrix vector rows row = inconsistent matrix vector rows (row + 1)"
        using True by (subst inconsistent.simps) auto
      also have "\<dots> \<longleftrightarrow> (\<exists>r. row + 1 \<le> r \<and> r < rows \<and>
            list_all (\<lambda>e. e = 0) (matrix ! r) \<and> vector ! r = 1)"
        using "1.IH"[OF True miss] .
      also have "\<dots> \<longleftrightarrow> (\<exists>r. row \<le> r \<and> r < rows \<and>
            list_all (\<lambda>e. e = 0) (matrix ! r) \<and> vector ! r = 1)"
      proof -
        have "row + 1 \<le> r \<longleftrightarrow> row \<le> r" if "list_all (\<lambda>e. e = 0) (matrix ! r) \<and> vector ! r = 1" for r
          using that miss by (cases "r = row") auto
        then show ?thesis by blast
      qed
      finally show ?thesis .
    qed
  next
    case False
    then have "\<not> inconsistent matrix vector rows row"
      by (subst inconsistent.simps) simp
    then show ?thesis
      using False by auto
  qed
qed

lemma accumulate_zero:
  "(\<And>c. k \<le> c \<Longrightarrow> c < cols \<Longrightarrow> mrow ! c = 1 \<Longrightarrow> sol ! c = 0)
     \<Longrightarrow> accumulate mrow sol cols k acc = acc"
proof (induction mrow sol cols k acc rule: accumulate.induct)
  case (1 mrow solution cols col accum)
  show ?case
  proof (cases "col < cols")
    case True
    have step: "(if mrow ! col = 1 then accum XOR (solution ! col) else accum) = accum"
      using "1.prems"[of col] True by simp
    have "accumulate mrow solution cols col accum = accumulate mrow solution cols (col + 1) accum"
      using True step by (subst accumulate.simps) simp
    also have "\<dots> = accum"
      using "1.IH"[OF True] "1.prems" step by simp
    finally show ?thesis .
  next
    case False
    then show ?thesis
      by (subst accumulate.simps) simp
  qed
qed

lemma back_substitute_spec:
  assumes ech: "echelon R C col M piv cur" and v: "length v = R" "list_all is_bit v"
  shows "n \<le> cur \<Longrightarrow> length sol = C \<Longrightarrow>
     (\<And>r. n \<le> r \<Longrightarrow> r < cur \<Longrightarrow> sol ! nat (piv ! r) = v ! r) \<Longrightarrow>
     (\<And>c. c < C \<Longrightarrow> (\<forall>r. n \<le> r \<and> r < cur \<longrightarrow> c \<noteq> nat (piv ! r)) \<Longrightarrow> sol ! c = 0) \<Longrightarrow>
     length (back_substitute M v piv C n sol) = C \<and>
     (\<forall>r<cur. back_substitute M v piv C n sol ! nat (piv ! r) = v ! r) \<and>
     (\<forall>c<C. (\<forall>r<cur. c \<noteq> nat (piv ! r)) \<longrightarrow> back_substitute M v piv C n sol ! c = 0)"
proof (induction n arbitrary: sol)
  case 0
  then show ?case by simp
next
  case (Suc n)
  from ech have curR: "cur \<le> R" and colC: "col \<le> C"
    and pivs: "\<And>r. r < cur \<Longrightarrow> 0 \<le> piv ! r \<and> nat (piv ! r) < col \<and> M ! r ! nat (piv ! r) = 1 \<and>
        (\<forall>r'<R. r' \<noteq> r \<longrightarrow> M ! r' ! nat (piv ! r) = 0)"
    by (auto simp: echelon_def)
  have n: "n < cur" using Suc.prems(1) by simp
  then have nR: "n < R" using curR by simp
  define pc where "pc = nat (piv ! n)"
  from pivs[OF n] have p0: "0 \<le> piv ! n" and pcC: "pc < C" and p1: "M ! n ! pc = 1"
    and pz: "\<And>r'. r' < R \<Longrightarrow> r' \<noteq> n \<Longrightarrow> M ! r' ! pc = 0"
    using colC by (auto simp: pc_def)
  have distinct: "nat (piv ! r) \<noteq> pc" if "r < cur" "r \<noteq> n" for r
  proof
    assume "nat (piv ! r) = pc"
    then have "M ! r ! pc = 1" using pivs[OF that(1)] by simp
    moreover have "M ! r ! pc = 0" using pz[of r] that curR by simp
    ultimately show False by simp
  qed
  have acc: "accumulate (M ! n) sol C (pc + 1) (v ! n) = v ! n"
  proof (rule accumulate_zero)
    fix c assume c: "pc + 1 \<le> c" "c < C" "M ! n ! c = 1"
    have "c \<noteq> nat (piv ! r)" if "Suc n \<le> r \<and> r < cur" for r
    proof
      assume "c = nat (piv ! r)"
      then have "M ! n ! c = 0"
        using pivs[of r] that nR by simp
      then show False using c(3) by simp
    qed
    then show "sol ! c = 0"
      using Suc.prems(4)[OF c(2)] by blast
  qed
  define sol' where "sol' = sol[pc := v ! n]"
  have bitv: "(v ! n) AND 1 = v ! n"
    using is_bit_nth[OF v(2)] nR v(1) by (simp add: is_bit_and_one)
  have eq: "back_substitute M v piv C (Suc n) sol = back_substitute M v piv C n sol'"
    using p0 acc bitv by (simp add: Let_def pc_def sol'_def)
  have len': "length sol' = C"
    using Suc.prems(2) by (simp add: sol'_def)
  have done': "sol' ! nat (piv ! r) = v ! r" if "n \<le> r" "r < cur" for r
  proof (cases "r = n")
    case True
    then show ?thesis
      using pcC Suc.prems(2) by (simp add: sol'_def pc_def)
  next
    case False
    then have "Suc n \<le> r" using that by simp
    then show ?thesis
      using Suc.prems(3)[OF _ that(2)] distinct[OF that(2) False] by (simp add: sol'_def)
  qed
  have rest': "sol' ! c = 0" if "c < C" "\<forall>r. n \<le> r \<and> r < cur \<longrightarrow> c \<noteq> nat (piv ! r)" for c
  proof -
    have "c \<noteq> pc" using that(2) n by (auto simp: pc_def)
    moreover have "sol ! c = 0"
      using Suc.prems(4)[OF that(1)] that(2) by auto
    ultimately show ?thesis by (simp add: sol'_def)
  qed
  have "n \<le> cur" using n by simp
  from Suc.IH[OF this len' done' rest'] show ?case
    unfolding eq by blast
qed

lemma echelon_initial:
  "wf_matrix R C M \<Longrightarrow> echelon R C 0 M (replicate R (-1)) 0"
  by (simp add: echelon_def)

lemma gauss_correct:
  assumes ne: "M \<noteq> []" and wf: "wf_matrix (length M) (length (M ! 0)) M"
    and v: "length v = length M" "list_all is_bit v"
  shows "(gaussianEliminationGF2 M v = Inr None \<and>
            \<not> (\<exists>x. length x = length (M ! 0) \<and> solves M v x))
         \<or> (\<exists>s. gaussianEliminationGF2 M v = Inr (Some s) \<and> length s = length (M ! 0) \<and>
               list_all is_bit s \<and> solves M v s)"
proof -
  define R where "R = length M"
  define C where "C = length (M ! 0)"
  have wf': "wf_matrix R C M" using wf by (simp add: R_def C_def)
  from reduce_inv[OF echelon_initial[OF wf'], of v] v
  obtain M' v' piv cur col where
    red: "reduce R C 0 (M, v, replicate R (-1), 0) = (M', v', piv, cur)"
    and ech: "echelon R C col M' piv cur"
    and stop: "col = C \<or> cur = R"
    and v': "length v' = R" "list_all is_bit v'"
    and sol: "\<And>x. length x = C \<Longrightarrow> solves M' v' x = solves M v x"
    unfolding R_def by blast
  from ech have wfM': "wf_matrix R C M'" and lM': "length M' = R" and curR: "cur \<le> R"
    and pivs: "\<And>r. r < cur \<Longrightarrow> 0 \<le> piv ! r \<and> nat (piv ! r) < col \<and> M' ! r ! nat (piv ! r) = 1 \<and>
        (\<forall>r'<R. r' \<noteq> r \<longrightarrow> M' ! r' ! nat (piv ! r) = 0)"
    and zeros: "\<And>r c. r < R \<Longrightarrow> cur \<le> r \<Longrightarrow> c < col \<Longrightarrow> M' ! r ! c = 0"
    and colC: "col \<le> C"
    by (auto simp: echelon_def wf_matrix_def)
  define s where "s = back_substitute M' v' piv C cur (replicate C 0)"
  have res: "gaussianEliminationGF2 M v =
      (if inconsistent M' v' R cur then Inr None else Inr (Some s))"
    using ne red by (simp add: gaussianEliminationGF2_def R_def[symmetric] C_def[symmetric] s_def)
  show ?thesis
  proof (cases "inconsistent M' v' R cur")
    case True
    then obtain r where r: "cur \<le> r" "r < R" "list_all (\<lambda>e. e = 0) (M' ! r)" "v' ! r = 1"
      by (auto simp: inconsistent_iff)
    have no: "\<not> solves M' v' x" if "length x = C" for x
    proof
      assume "solves M' v' x"
      then have "dotn C (M' ! r) x = v' ! r"
        using r(2) lM' that by (simp add: solves_iff)
      moreover have "dotn C (M' ! r) x = 0"
        by (rule dotn_zero) (use r(3) wf_matrix_row[OF wfM' r(2)] in \<open>simp add: list_all_length\<close>)
      ultimately show False using r(4) by simp
    qed
    have "\<not> (\<exists>x. length x = length (M ! 0) \<and> solves M v x)"
      using no sol by (auto simp: C_def)
    then show ?thesis
      using res True by simp
  next
    case False
    have spec: "length s = C \<and> (\<forall>r<cur. s ! nat (piv ! r) = v' ! r) \<and>
        (\<forall>c<C. (\<forall>r<cur. c \<noteq> nat (piv ! r)) \<longrightarrow> s ! c = 0)"
      unfolding s_def
      by (rule back_substitute_spec[OF ech v']) simp_all
    then have ls: "length s = C"
      and sp: "\<And>r. r < cur \<Longrightarrow> s ! nat (piv ! r) = v' ! r"
      and sz: "\<And>c. c < C \<Longrightarrow> (\<forall>r<cur. c \<noteq> nat (piv ! r)) \<Longrightarrow> s ! c = 0"
      by blast+
    have bitv': "is_bit (v' ! r)" if "r < R" for r
      using is_bit_nth[OF v'(2)] that v'(1) by simp
    have bits: "list_all is_bit s"
      unfolding list_all_length
    proof (intro allI impI)
      fix c assume "c < length s"
      then have c: "c < C" using ls by simp
      show "is_bit (s ! c)"
      proof (cases "\<forall>r<cur. c \<noteq> nat (piv ! r)")
        case True
        then show ?thesis using sz[OF c] by simp
      next
        case False
        then obtain r where "r < cur" "c = nat (piv ! r)" by blast
        then show ?thesis using sp[of r] bitv'[of r] curR by simp
      qed
    qed
    have row: "dotn C (M' ! r) s = v' ! r" if r: "r < R" for r
    proof (cases "r < cur")
      case True
      define j where "j = nat (piv ! r)"
      from pivs[OF True] have jC: "j < C" and one: "M' ! r ! j = 1"
        using colC by (auto simp: j_def)
      have "dotn C (M' ! r) s = (M' ! r ! j) AND (s ! j)"
      proof (rule dotn_single[OF jC])
        fix c assume c: "c < C" "c \<noteq> j"
        show "(M' ! r ! c) AND (s ! c) = 0"
        proof (cases "\<forall>r'<cur. c \<noteq> nat (piv ! r')")
          case True
          then show ?thesis using sz[OF c(1)] by simp
        next
          case False
          then obtain r' where r': "r' < cur" "c = nat (piv ! r')" by blast
          then have "r' \<noteq> r" using c(2) by (auto simp: j_def)
          then have "M' ! r ! c = 0"
            using pivs[OF r'(1)] r'(2) r by simp
          then show ?thesis by simp
        qed
      qed
      also have "\<dots> = v' ! r"
        using one sp[OF True] bitv'[OF r] by (simp add: j_def one_and_bit)
      finally show ?thesis .
    next
      case False
      then have cr: "cur \<le> r" by simp
      then have "cur \<noteq> R" using r by simp
      then have "col = C" using stop by simp
      then have z: "\<And>c. c < C \<Longrightarrow> M' ! r ! c = 0"
        using zeros[OF r cr] by simp
      then have "list_all (\<lambda>e. e = 0) (M' ! r)"
        using wf_matrix_row[OF wfM' r] by (simp add: list_all_length)
      then have "v' ! r \<noteq> 1"
        using \<open>\<not> inconsistent M' v' R cur\<close> cr r by (auto simp: inconsistent_iff)
      then have "v' ! r = 0"
        using bitv'[OF r] by (simp add: is_bit_def)
      moreover have "dotn C (M' ! r) s = 0"
        by (rule dotn_zero) (use z in simp)
      ultimately show ?thesis by simp
    qed
    then have "solves M' v' s"
      using lM' ls by (simp add: solves_iff)
    then have "solves M v s"
      using sol[OF ls] by simp
    then show ?thesis
      using res False ls bits by (simp add: C_def)
  qed
qed

section \<open>Boards reachable by toggles\<close>

lemma toggleMatrix_shape:
  "length toggleMatrix = 25 \<and> list_all (\<lambda>row. length row = 25 \<and> list_all is_bit row) toggleMatrix"
  by code_simp

lemma toggleMatrix_columns:
  "list_all (\<lambda>i. toggleCell (replicate 25 0) (int i) = map (\<lambda>row. row ! i) toggleMatrix) [0 ..< 25]"
  by code_simp

lemma toggleMatrix_wf: "wf_matrix 25 25 toggleMatrix"
  using toggleMatrix_shape by (simp add: wf_matrix_def list_all_length)

lemma toggleMatrix_length: "length toggleMatrix = 25" "length (toggleMatrix ! 0) = 25" "toggleMatrix \<noteq> []"
  using toggleMatrix_shape by (auto simp: list_all_length)

lemma toggleCell_matrix:
  assumes "length b = 25" "i < 25" "r < 25"
  shows "toggleCell b (int i) ! r = (b ! r) XOR (toggleMatrix ! r ! i)"
proof -
  have "toggleCell (replicate 25 0) (int i) = map (\<lambda>row. row ! i) toggleMatrix"
    using toggleMatrix_columns assms(2) by (simp add: list_all_iff)
  then have "toggleCell (replicate 25 0) (int i) ! r = toggleMatrix ! r ! i"
    using assms(3) toggleMatrix_length(1) by simp
  moreover have "toggleCell b (int i) ! r = (toggleCell (replicate 25 0) (int i) ! r) XOR (b ! r)"
    using toggleCell_mask[OF assms(1), of "int i"] assms(1,3)
    by (simp add: toggleCell_length)
  ultimately show ?thesis
    by (simp add: xor.commute)
qed

lemma solves_toggle:
  assumes b: "length b = 25" and x: "length x = 25" and i: "i < 25"
    and sol: "solves toggleMatrix b x"
  shows "solves toggleMatrix (toggleCell b (int i)) (x[i := (x ! i) XOR 1])"
  unfolding solves_iff
proof (intro allI impI)
  fix r assume "r < length toggleMatrix"
  then have r: "r < 25" by (simp add: toggleMatrix_length)
  have "dotn 25 (toggleMatrix ! r) (x[i := (x ! i) XOR 1]) =
        dotn 25 (toggleMatrix ! r) x XOR ((toggleMatrix ! r ! i) AND 1)"
    using dotn_flip[of i x 25 "toggleMatrix ! r"] i x by simp
  also have "\<dots> = (b ! r) XOR (toggleMatrix ! r ! i)"
    using sol r x wf_matrix_entry[OF toggleMatrix_wf r i]
    by (simp add: solves_iff toggleMatrix_length is_bit_and_one)
  also have "\<dots> = toggleCell b (int i) ! r"
    using toggleCell_matrix[OF b i r] by simp
  finally show "dotn (length (x[i := (x ! i) XOR 1])) (toggleMatrix ! r) (x[i := (x ! i) XOR 1])
      = toggleCell b (int i) ! r"
    using x by simp
qed

lemma reachable_has_solution:
  "\<forall>i\<in>set indices. 0 \<le> i \<and> i < 25 \<Longrightarrow> length b = 25 \<Longrightarrow> list_all is_bit b \<Longrightarrow>
     \<exists>x. length x = 25 \<and> solves toggleMatrix b x \<Longrightarrow>
     length (applyToggles indices b) = 25 \<and> list_all is_bit (applyToggles indices b) \<and>
     (\<exists>x. length x = 25 \<and> solves toggleMatrix (applyToggles indices b) x)"
proof (induction indices arbitrary: b)
  case Nil
  then show ?case by (simp add: applyToggles_def)
next
  case (Cons i indices)
  from Cons.prems(1) have i: "0 \<le> i" "i < 25" and rest: "\<forall>i\<in>set indices. 0 \<le> i \<and> i < 25"
    by simp_all
  from Cons.prems(4) obtain x where x: "length x = 25" "solves toggleMatrix b x"
    by blast
  have ni: "nat i < 25" "int (nat i) = i" using i by simp_all
  have "solves toggleMatrix (toggleCell b i) (x[nat i := (x ! nat i) XOR 1])"
    using solves_toggle[OF Cons.prems(2) x(1) ni(1) x(2)] ni(2) by simp
  then have ex: "\<exists>x. length x = 25 \<and> solves toggleMatrix (toggleCell b i) x"
    using x(1) by (intro exI[of _ "x[nat i := (x ! nat i) XOR 1]"]) simp
  have "applyToggles (i # indices) b = applyToggles indices (toggleCell b i)"
    by (simp add: applyToggles_def)
  then show ?case
    using Cons.IH[OF rest toggleCell_length[OF Cons.prems(2)]
        toggleCell_bits[OF Cons.prems(2,3)] ex]
    by simp
qed

lemma solves_zero: "solves toggleMatrix (replicate 25 0) (replicate 25 0)"
  unfolding solves_iff
proof (intro allI impI)
  fix r assume "r < length toggleMatrix"
  then have r: "r < 25" by (simp add: toggleMatrix_length)
  have "dotn 25 (toggleMatrix ! r) (replicate 25 0) = 0"
    by (rule dotn_zero_terms) simp
  then show "dotn (length (replicate 25 (0::int))) (toggleMatrix ! r) (replicate 25 0) = replicate 25 0 ! r"
    using r by simp
qed

lemma solutionIndices_filter:
  "solutionIndices s = map int (filter (\<lambda>i. (s ! i) AND 1 = 1) [0 ..< length s])"
proof -
  have "zip s (map int [0 ..< length s]) = map (\<lambda>i. (s ! i, int i)) [0 ..< length s]"
    by (rule nth_equalityI) simp_all
  then show ?thesis
    by (simp add: solutionIndices_def filter_map o_def)
qed

lemma applyToggles_append:
  "applyToggles (xs @ ys) b = applyToggles ys (applyToggles xs b)"
  by (simp add: applyToggles_def)

lemma applyToggles_prefix:
  assumes b: "length b = 25" and s: "list_all is_bit s" "length s = 25"
  shows "n \<le> 25 \<Longrightarrow>
     length (applyToggles (map int (filter (\<lambda>i. (s ! i) AND 1 = 1) [0 ..< n])) b) = 25 \<and>
     (\<forall>r<25. applyToggles (map int (filter (\<lambda>i. (s ! i) AND 1 = 1) [0 ..< n])) b ! r
               = (b ! r) XOR dotn n (toggleMatrix ! r) s)"
proof (induction n)
  case 0
  then show ?case using b by (simp add: applyToggles_def)
next
  case (Suc n)
  let ?P = "\<lambda>i. (s ! i) AND 1 = 1"
  let ?prev = "applyToggles (map int (filter ?P [0 ..< n])) b"
  from Suc have n: "n < 25" and len: "length ?prev = 25"
    and nth: "\<And>r. r < 25 \<Longrightarrow> ?prev ! r = (b ! r) XOR dotn n (toggleMatrix ! r) s"
    by simp_all
  have bit: "is_bit (s ! n)"
    using is_bit_nth[OF s(1)] n s(2) by simp
  show ?case
  proof (cases "?P n")
    case True
    then have sn: "s ! n = 1" using bit by (auto simp: is_bit_def)
    have eq: "applyToggles (map int (filter ?P [0 ..< Suc n])) b = toggleCell ?prev (int n)"
      using True by (simp add: applyToggles_append) (simp add: applyToggles_def)
    have "toggleCell ?prev (int n) ! r = (b ! r) XOR dotn (Suc n) (toggleMatrix ! r) s"
      if r: "r < 25" for r
      using toggleCell_matrix[OF len n r] nth[OF r] sn wf_matrix_entry[OF toggleMatrix_wf r n]
      by (simp add: xor.assoc is_bit_and_one)
    then show ?thesis
      unfolding eq using toggleCell_length[OF len] by simp
  next
    case False
    then have sn: "s ! n = 0" using bit by (auto simp: is_bit_def)
    have eq: "applyToggles (map int (filter ?P [0 ..< Suc n])) b = ?prev"
      using False by simp
    show ?thesis
      unfolding eq using len nth sn by simp
  qed
qed

lemma apply_solution_clears:
  assumes b: "length b = 25" and s: "list_all is_bit s" "length s = 25"
    and sol: "solves toggleMatrix b s"
  shows "applyToggles (solutionIndices s) b = replicate 25 0"
proof -
  let ?res = "applyToggles (solutionIndices s) b"
  from applyToggles_prefix[OF b s, of 25]
  have len: "length ?res = 25"
    and nth: "\<And>r. r < 25 \<Longrightarrow> ?res ! r = (b ! r) XOR dotn 25 (toggleMatrix ! r) s"
    using s(2) by (simp_all add: solutionIndices_filter)
  have "?res ! r = 0" if "r < 25" for r
    using nth[OF that] sol s(2) that by (simp add: solves_iff toggleMatrix_length)
  then show ?thesis
    using len by (intro nth_equalityI) simp_all
qed

text \<open>
  Claim C3. For every board obtained from the solved board by a finite sequence of
  toggles at indices from 0 to 24, the solver run on the toggle matrix and that board
  returns a solution vector, never \<^verbatim>\<open>null\<close>, and toggling every index whose entry
  in the vector is 1 turns the board into the solved board.
\<close>

theorem reachable_boards_solved:
  assumes "\<forall>i\<in>set indices. 0 \<le> i \<and> i < 25"
  shows "\<exists>s. gaussianEliminationGF2 toggleMatrix (applyToggles indices (replicate 25 0)) = Inr (Some s)
           \<and> applyToggles (solutionIndices s) (applyToggles indices (replicate 25 0)) = replicate 25 0"
proof -
  let ?b = "applyToggles indices (replicate 25 0)"
  have "\<exists>x. length x = 25 \<and> solves toggleMatrix (replicate 25 0) x"
    using solves_zero by (intro exI[of _ "replicate 25 0"]) simp
  from reachable_has_solution[OF assms _ _ this]
  have b: "length ?b = 25" "list_all is_bit ?b"
    and ex: "\<exists>x. length x = 25 \<and> solves toggleMatrix ?b x"
    by (simp_all add: list_all_length)
  from gauss_correct[of toggleMatrix ?b] toggleMatrix_wf b ex
  obtain s where s: "gaussianEliminationGF2 toggleMatrix ?b = Inr (Some s)"
    "length s = 25" "list_all is_bit s" "solves toggleMatrix ?b s"
    by (auto simp: toggleMatrix_length)
  from apply_solution_clears[OF b(1) s(3,2,4)] s(1) show ?thesis
    by blast
qed

theorem reachable_boards_solved_witness:
  "\<exists>s. gaussianEliminationGF2 toggleMatrix (applyToggles [12, 0, 24, 12, 7] (replicate 25 0)) = Inr (Some s)
      \<and> applyToggles (solutionIndices s) (applyToggles [12, 0, 24, 12, 7] (replicate 25 0)) = replicate 25 0"
  using reachable_boards_solved[of "[12, 0, 24, 12, 7]"] by simp

section \<open>The toggle matrix\<close>

lemma toggleMatrix_eq: "toggleMatrix = [[1, 1, 0, 0, 0, 1, 0, 0, 0, 0, 0, 0, 0, 0, 0, 0, 0, 0, 0, 0, 0, 0, 0, 0, 0],
  [1, 1, 1, 0, 0, 0, 1, 0, 0, 0, 0, 0, 0, 0, 0, 0, 0, 0, 0, 0, 0, 0, 0, 0, 0],
  [0, 1, 1, 1, 0, 0, 0, 1, 0, 0, 0, 0, 0, 0, 0, 0, 0, 0, 0, 0, 0, 0, 0, 0, 0],
  [0, 0, 1, 1, 1, 0, 0, 0, 1, 0, 0, 0, 0, 0, 0, 0, 0, 0, 0, 0, 0, 0, 0, 0, 0],
  [0, 0, 0, 1, 1, 0, 0, 0, 0, 1, 0, 0, 0, 0, 0, 0, 0, 0, 0, 0, 0, 0, 0, 0, 0],
  [1, 0, 0, 0, 0, 1, 1, 0, 0, 0, 1, 0, 0, 0, 0, 0, 0, 0, 0, 0, 0, 0, 0, 0, 0],
  [0, 1, 0, 0, 0, 1, 1, 1, 0, 0, 0, 1, 0, 0, 0, 0, 0, 0, 0, 0, 0, 0, 0, 0, 0],
  [0, 0, 1, 0, 0, 0, 1, 1, 1, 0, 0, 0, 1, 0, 0, 0, 0, 0, 0, 0, 0, 0, 0, 0, 0],
  [0, 0, 0, 1, 0, 0, 0, 1, 1, 1, 0, 0, 0, 1, 0, 0, 0, 0, 0, 0, 0, 0, 0, 0, 0],
  [0, 0, 0, 0, 1, 0, 0, 0, 1, 1, 0, 0, 0, 0, 1, 0, 0, 0, 0, 0, 0, 0, 0, 0, 0],
  [0, 0, 0, 0, 0, 1, 0, 0, 0, 0, 1, 1, 0, 0, 0, 1, 0, 0, 0, 0, 0, 0, 0, 0, 0],
  [0, 0, 0, 0, 0, 0, 1, 0, 0, 0, 1, 1, 1, 0, 0, 0, 1, 0, 0, 0, 0, 0, 0, 0, 0],
  [0, 0, 0, 0, 0, 0, 0, 1, 0, 0, 0, 1, 1, 1, 0, 0, 0, 1, 0, 0, 0, 0, 0, 0, 0],
  [0, 0, 0, 0, 0, 0, 0, 0, 1, 0, 0, 0, 1, 1, 1, 0, 0, 0, 1, 0, 0, 0, 0, 0, 0],
  [0, 0, 0, 0, 0, 0, 0, 0, 0, 1, 0, 0, 0, 1, 1, 0, 0, 0, 0, 1, 0, 0, 0, 0, 0],
  [0, 0, 0, 0, 0, 0, 0, 0, 0, 0, 1, 0, 0, 0, 0, 1, 1, 0, 0, 0, 1, 0, 0, 0, 0],
  [0, 0, 0, 0, 0, 0, 0, 0, 0, 0, 0, 1, 0, 0, 0, 1, 1, 1, 0, 0, 0, 1, 0, 0, 0],
  [0, 0, 0, 0, 0, 0, 0, 0, 0, 0, 0, 0, 1, 0, 0, 0, 1, 1, 1, 0, 0, 0, 1, 0, 0],
  [0, 0, 0, 0, 0, 0, 0, 0, 0, 0, 0, 0, 0, 1, 0, 0, 0, 1, 1, 1, 0, 0, 0, 1, 0],
  [0, 0, 0, 0, 0, 0, 0, 0, 0, 0, 0, 0, 0, 0, 1, 0, 0, 0, 1, 1, 0, 0, 0, 0, 1],
  [0, 0, 0, 0, 0, 0, 0, 0, 0, 0, 0, 0, 0, 0, 0, 1, 0, 0, 0, 0, 1, 1, 0, 0, 0],
  [0, 0, 0, 0, 0, 0, 0, 0, 0, 0, 0, 0, 0, 0, 0, 0, 1, 0, 0, 0, 1, 1, 1, 0, 0],
  [0, 0, 0, 0, 0, 0, 0, 0, 0, 0, 0, 0, 0, 0, 0, 0, 0, 1, 0, 0, 0, 1, 1, 1, 0],
  [0, 0, 0, 0, 0, 0, 0, 0, 0, 0, 0, 0, 0, 0, 0, 0, 0, 0, 1, 0, 0, 0, 1, 1, 1],
  [0, 0, 0, 0, 0, 0, 0, 0, 0, 0, 0, 0, 0, 0, 0, 0, 0, 0, 0, 1, 0, 0, 0, 1, 1]]"
  by code_simp

lemma all_less_list_all: "(\<forall>i<n. P i) \<longleftrightarrow> list_all P [0 ..< n]"
  by (auto simp: list_all_iff)

lemma toggleMatrix_symmetric_upto: "symmetric_upto 25 toggleMatrix"
  by code_simp

lemma toggleMatrix_popcounts: "list_all (\<lambda>i. popcount (toggleMatrix ! i) = expectedPopcount i) [0 ..< 25]"
  by code_simp

text \<open>
  Claim C6. The toggle matrix of the 5 x 5 grid is symmetric, and row \<open>i\<close> has 3 set
  bits when cell \<open>i\<close> is a corner, 4 when it is another cell of the border and 5 when
  it is an interior cell.
\<close>

theorem toggleMatrix_symmetric_popcount:
  "(\<forall>i<25. \<forall>j<25. toggleMatrix ! i ! j = toggleMatrix ! j ! i)
   \<and> (\<forall>i<25. popcount (toggleMatrix ! i) = expectedPopcount i)"
  using toggleMatrix_symmetric_upto toggleMatrix_popcounts
  by (simp add: symmetric_upto_def all_less_list_all)

theorem toggleMatrix_symmetric_popcount_witness:
  "toggleMatrix ! 0 ! 1 = toggleMatrix ! 1 ! 0 \<and> popcount (toggleMatrix ! 0) = 3 
   \<and> popcount (toggleMatrix ! 1) = 4 \<and> popcount (toggleMatrix ! 12) = 5"
  using toggleMatrix_symmetric_popcount
  by (simp add: expectedPopcount_def onBorder_def grid_defs)

section \<open>The order of the plan\<close>











section \<open>The puzzle generator and the solved board\<close>

lemma toggleMatrix_diagonal: "list_all (\<lambda>i. toggleMatrix ! i ! i = 1) [0 ..< 25]"
  by code_simp

lemma toggle_zero_not_solved:
  assumes "0 \<le> i" "i < 25"
  shows "\<not> isSolved (toggleCell (replicate 25 0) i)"
proof -
  have n: "nat i < 25" "int (nat i) = i" using assms by simp_all
  have "toggleMatrix ! nat i ! nat i = 1"
    using toggleMatrix_diagonal n(1) by (simp add: list_all_iff)
  then have "toggleCell (replicate 25 0) i ! nat i = 1"
    using toggleCell_matrix[of "replicate 25 0" "nat i" "nat i"] n by simp
  moreover have "nat i < length (toggleCell (replicate 25 0) i)"
    using n(1) by (simp add: toggleCell_length)
  ultimately show ?thesis
    by (auto simp: isSolved_def list_all_length)
qed

lemma isSolved_zero: "length b = n \<Longrightarrow> isSolved b \<Longrightarrow> b = replicate n 0"
  by (auto simp: isSolved_def list_all_length intro!: nth_equalityI)

lemma puzzle_fold:
  "length b = 25 \<Longrightarrow>
     length (fst (fold (puzzle_step hit) its (b, t))) = 25 \<and>
     t \<le> snd (fold (puzzle_step hit) its (b, t)) \<and>
     (snd (fold (puzzle_step hit) its (b, t)) = t \<longrightarrow> fst (fold (puzzle_step hit) its (b, t)) = b)"
proof (induction its arbitrary: b t)
  case Nil
  then show ?case by simp
next
  case (Cons i its)
  show ?case
  proof (cases "hit i")
    case True
    then have "fold (puzzle_step hit) (i # its) (b, t) =
        fold (puzzle_step hit) its (toggleCell b (int (i mod BOARD_CELLS)), t + 1)"
      by (simp add: puzzle_step_def)
    then show ?thesis
      using Cons.IH[OF toggleCell_length[OF Cons.prems], of "int (i mod BOARD_CELLS)" "t + 1"]
      by auto
  next
    case False
    then have "fold (puzzle_step hit) (i # its) (b, t) = fold (puzzle_step hit) its (b, t)"
      by (simp add: puzzle_step_def)
    then show ?thesis
      using Cons.IH[OF Cons.prems, of t] by simp
  qed
qed

lemma puzzle_loop_spec:
  "length (fst (puzzle_loop hit)) = 25 \<and> 0 \<le> snd (puzzle_loop hit) \<and>
   (snd (puzzle_loop hit) = 0 \<longrightarrow> fst (puzzle_loop hit) = replicate 25 0)"
  using puzzle_fold[of "replicate 25 0" hit "[0 ..< 25]" 0]
  by (simp add: puzzle_loop_def BOARD_CELLS_def GRID_SIZE_def)

lemma puzzle_fold_cong:
  "(\<And>i. i \<in> set its \<Longrightarrow> hit i = hit' i) \<Longrightarrow>
     fold (puzzle_step hit) its st = fold (puzzle_step hit') its st"
  by (induction its arbitrary: st) (simp_all add: puzzle_step_def)

lemma puzzle_loop_cong:
  "(\<And>i. i < 25 \<Longrightarrow> hit i = hit' i) \<Longrightarrow> puzzle_loop hit = puzzle_loop hit'"
  unfolding puzzle_loop_def
  by (rule puzzle_fold_cong) (simp add: BOARD_CELLS_def GRID_SIZE_def)

lemma puzzle_loop_none:
  assumes "\<And>i. \<not> hit i"
  shows "puzzle_loop hit = (replicate 25 0, 0)"
proof -
  have "fold (puzzle_step hit) its st = st" for its st
    by (induction its arbitrary: st) (simp_all add: puzzle_step_def assms split: prod.splits)
  then show ?thesis
    by (simp add: puzzle_loop_def BOARD_CELLS_def GRID_SIZE_def)
qed

lemma exceeds_not_finite:
  "\<not> exceeds NaN i" "\<not> exceeds PosInfinity i" "\<not> exceeds NegInfinity i"
  by (simp_all add: exceeds_def threshold_def)

lemma forcedIndex_not_finite:
  "forcedIndex NaN = NaN" "forcedIndex PosInfinity = NaN" "forcedIndex NegInfinity = NaN"
  by (simp_all add: forcedIndex_def)

text \<open>
  Claim C4 says that the generator never returns the solved board, for every numeric
  seed. For the seeds \<^verbatim>\<open>NaN\<close>, \<^verbatim>\<open>Infinity\<close> and \<^verbatim>\<open>-Infinity\<close> the sine is
  \<^verbatim>\<open>NaN\<close>: no threshold test succeeds, the forced index is \<^verbatim>\<open>NaN\<close>, the forced
  toggle flips nothing, and the solved board is returned.
\<close>

theorem createPuzzle_not_finite_counterexample:
  "createPuzzle NaN = replicate 25 0 \<and> isSolved (createPuzzle NaN)
   \<and> isSolved (createPuzzle PosInfinity) \<and> isSolved (createPuzzle NegInfinity)"
  by (simp add: createPuzzle_def puzzle_loop_none exceeds_not_finite forcedIndex_not_finite
      toggleCellNumber_def isSolved_def list_all_iff)

text \<open>
  The two facts that carry the result for finite seeds do not depend on how the
  arithmetic rounds. Whatever finite number the product \<^verbatim>\<open>Math.sin(randomSeed) * BOARD_CELLS\<close>
  is, the index of line 172 is an integer from 0 to 24; and whatever the outcomes of the
  25 threshold tests are, lines 171-175 with such an index return a board of 25 cells
  that is not solved.
\<close>

lemma fmod_range:
  assumes "0 \<le> a" "0 < c"
  shows "0 \<le> a - c * of_int (js_trunc (a / c))" "a - c * of_int (js_trunc (a / c)) < c"
proof -
  have "0 \<le> a / c"
    using assms by simp
  then have q: "js_trunc (a / c) = \<lfloor>a / c\<rfloor>"
    by (simp add: js_trunc_def)
  have ac: "c * (a / c) = a"
    using assms(2) by simp
  have "c * of_int \<lfloor>a / c\<rfloor> \<le> c * (a / c)"
    using assms(2) by (intro mult_left_mono) simp_all
  then have lo: "c * of_int \<lfloor>a / c\<rfloor> \<le> a"
    unfolding ac .
  have "a / c < of_int \<lfloor>a / c\<rfloor> + 1"
    by linarith
  then have "c * (a / c) < c * (of_int \<lfloor>a / c\<rfloor> + 1)"
    using assms(2) by (intro mult_strict_left_mono)
  then have hi: "a < c * (of_int \<lfloor>a / c\<rfloor> + 1)"
    unfolding ac .
  from lo hi
  show "0 \<le> a - c * of_int (js_trunc (a / c))" "a - c * of_int (js_trunc (a / c)) < c"
    unfolding q by (simp_all add: algebra_simps)
qed

lemma forced_range:
  "\<exists>k. 0 \<le> k \<and> k < 25
       \<and> js_floor (js_fmod (js_abs (Num p)) (Num (real BOARD_CELLS))) = Num (of_int k)"
proof -
  define r where "r = \<bar>p\<bar> - 25 * of_int (js_trunc (\<bar>p\<bar> / 25))"
  have r: "0 \<le> r" "r < 25"
    using fmod_range[of "\<bar>p\<bar>" 25] by (simp_all add: r_def)
  have "js_floor (js_fmod (js_abs (Num p)) (Num (real BOARD_CELLS))) = Num (of_int \<lfloor>r\<rfloor>)"
    by (simp add: BOARD_CELLS_def GRID_SIZE_def r_def)
  moreover have "0 \<le> \<lfloor>r\<rfloor>" "\<lfloor>r\<rfloor> < 25"
    using r by (simp_all add: floor_less_iff)
  ultimately show ?thesis
    by blast
qed

lemma forcedIndex_finite:
  "\<exists>k. 0 \<le> k \<and> k < 25 \<and> forcedIndex (Num x) = Num (of_int k)"
  using forced_range[of "sin x * real BOARD_CELLS"] by (simp add: forcedIndex_def)

lemma forced_toggle:
  assumes "0 \<le> k" "k < 25" and loop: "puzzle_loop hit = (b, t)"
  shows "(if t = 0 \<or> isSolved b then toggleCellNumber b (Num (of_int k)) else b) =
           (if isSolved b then toggleCell (replicate 25 0) k else b)"
    and "\<not> isSolved (if t = 0 \<or> isSolved b then toggleCellNumber b (Num (of_int k)) else b)"
    and "length (if t = 0 \<or> isSolved b then toggleCellNumber b (Num (of_int k)) else b) = 25"
proof -
  from puzzle_loop_spec[of hit] loop
  have len: "length b = 25" and t0: "t = 0 \<Longrightarrow> b = replicate 25 0"
    by simp_all
  have solved: "b = replicate 25 0" if "isSolved b"
    using isSolved_zero[OF len that] .
  have zero_solved: "isSolved (replicate 25 (0::int))"
    by (simp add: isSolved_def list_all_iff)
  show eq: "(if t = 0 \<or> isSolved b then toggleCellNumber b (Num (of_int k)) else b) =
           (if isSolved b then toggleCell (replicate 25 0) k else b)"
  proof (cases "t = 0 \<or> isSolved b")
    case True
    then have "b = replicate 25 0"
      using t0 solved by blast
    then have "isSolved b"
      using zero_solved by simp
    then show ?thesis
      using \<open>b = replicate 25 0\<close> by (simp add: toggleCellNumber_def)
  next
    case False
    then show ?thesis
      by simp
  qed
  show "\<not> isSolved (if t = 0 \<or> isSolved b then toggleCellNumber b (Num (of_int k)) else b)"
    unfolding eq using toggle_zero_not_solved[OF assms(1,2)] by simp
  show "length (if t = 0 \<or> isSolved b then toggleCellNumber b (Num (of_int k)) else b) = 25"
    unfolding eq using len by (simp add: toggleCell_length)
qed

text \<open>
  Claim C4, as the code has it. The board of \<open>createPuzzle\<close> is a function of the seed
  alone: it depends on it only through the 25 threshold tests and the forced index. For
  every finite seed it has 25 cells and is not the solved board: the forced index is an
  integer from 0 to 24, and when the loop leaves the board solved, which includes the
  case of no toggle at all, exactly one more toggle, at the forced index, is applied to
  it; otherwise the board of the loop is returned, which is not solved.
\<close>

theorem createPuzzle_finite_not_solved:
  "length (createPuzzle (Num x)) = 25
   \<and> \<not> isSolved (createPuzzle (Num x))
   \<and> (\<exists>k. 0 \<le> k \<and> k < 25 \<and> forcedIndex (Num x) = Num (of_int k)
         \<and> createPuzzle (Num x) =
             (if isSolved (fst (puzzle_loop (exceeds (Num x))))
              then toggleCell (replicate 25 0) k
              else fst (puzzle_loop (exceeds (Num x)))))
   \<and> ((\<forall>i<25. exceeds seed i = exceeds (Num x) i) \<and> forcedIndex seed = forcedIndex (Num x)
        \<longrightarrow> createPuzzle seed = createPuzzle (Num x))"
proof -
  obtain b t where loop: "puzzle_loop (exceeds (Num x)) = (b, t)"
    by (cases "puzzle_loop (exceeds (Num x))")
  obtain k where k: "0 \<le> k" "k < 25" "forcedIndex (Num x) = Num (of_int k)"
    using forcedIndex_finite by blast
  have cp: "createPuzzle (Num x) =
      (if t = 0 \<or> isSolved b then toggleCellNumber b (Num (of_int k)) else b)"
    by (simp add: createPuzzle_def loop k(3))
  have "createPuzzle seed = createPuzzle (Num x)"
    if "\<forall>i<25. exceeds seed i = exceeds (Num x) i" "forcedIndex seed = forcedIndex (Num x)"
    using puzzle_loop_cong[of "exceeds seed" "exceeds (Num x)"] that
    by (auto simp: createPuzzle_def split: prod.splits)
  moreover have "createPuzzle (Num x) = (if isSolved b then toggleCell (replicate 25 0) k else b)"
    "\<not> isSolved (createPuzzle (Num x))" "length (createPuzzle (Num x)) = 25"
    unfolding cp by (rule forced_toggle[OF k(1,2) loop])+
  ultimately show ?thesis
    using loop k by auto
qed

theorem createPuzzle_finite_not_solved_witness:
  "length (createPuzzle (Num 0)) = 25 \<and> \<not> isSolved (createPuzzle (Num 0))"
  using createPuzzle_finite_not_solved[of 0 "Num 0"] by blast

section \<open>The solver writes to its own arrays only\<close>

lemma write_num_take: "n0 \<le> a \<Longrightarrow> take n0 (write_num a k x h) = take n0 h"
  by (simp add: write_num_def)

lemma write_num_refs: "a \<noteq> m \<Longrightarrow> refs (write_num a k x h) m = refs h m"
  by (simp add: write_num_def refs_def)

lemma write_num_rows_ok: "rows_ok n0 m rows h \<Longrightarrow> a \<noteq> m \<Longrightarrow> rows_ok n0 m rows (write_num a k x h)"
  by (simp add: rows_ok_def write_num_refs)

lemma rows_ok_row: "rows_ok n0 m rows h \<Longrightarrow> row < rows \<Longrightarrow> n0 \<le> refs h m ! row \<and> refs h m ! row \<noteq> m"
  by (auto simp: rows_ok_def)

lemma xor_row_st_frame:
  "rows_ok n0 m rows h \<Longrightarrow> row < rows \<Longrightarrow>
     take n0 (xor_row_st m row cur cols k h) = take n0 h \<and>
     rows_ok n0 m rows (xor_row_st m row cur cols k h)"
proof (induction m row cur cols k h rule: xor_row_st.induct)
  case (1 m row currentRow cols k h)
  show ?case
  proof (cases "k < cols")
    case True
    let ?h = "write_num (refs h m ! row) k ((cell h m row k) XOR (cell h m currentRow k)) h"
    have a: "n0 \<le> refs h m ! row" "refs h m ! row \<noteq> m"
      using rows_ok_row[OF "1.prems"] by simp_all
    have ok: "rows_ok n0 m rows ?h"
      using write_num_rows_ok[OF "1.prems"(1) a(2)] .
    have eq: "xor_row_st m row currentRow cols k h = xor_row_st m row currentRow cols (k + 1) ?h"
      using True by (subst xor_row_st.simps) simp
    show ?thesis
      unfolding eq using "1.IH"[OF True ok "1.prems"(2)] write_num_take[OF a(1)] by simp
  next
    case False
    then have "xor_row_st m row currentRow cols k h = h"
      by (subst xor_row_st.simps) simp
    then show ?thesis using "1.prems" by simp
  qed
qed

lemma eliminate_st_frame:
  assumes addr: "n0 \<le> v" "v \<noteq> m"
  shows "rows_ok n0 m rows h \<Longrightarrow>
     take n0 (eliminate_st m v rows cols col cur row h) = take n0 h \<and>
     rows_ok n0 m rows (eliminate_st m v rows cols col cur row h)"
proof (induction "rows - row" arbitrary: row h)
  case 0
  then have "eliminate_st m v rows cols col cur row h = h"
    by (subst eliminate_st.simps) simp
  then show ?case using "0.prems" by simp
next
  case (Suc n)
  then have lt: "row < rows" by simp
  define h1 where "h1 = xor_row_st m row cur cols col h"
  define h2 where "h2 = write_num v row ((nums h1 v ! row) XOR (nums h1 v ! cur)) h1"
  define h' where "h' = (if row \<noteq> cur \<and> cell h m row col = 1 then h2 else h)"
  have eq: "eliminate_st m v rows cols col cur row h =
      eliminate_st m v rows cols col cur (row + 1) h'"
    using lt by (subst eliminate_st.simps) (simp add: h'_def h2_def h1_def Let_def)
  have f1: "take n0 h1 = take n0 h" "rows_ok n0 m rows h1"
    using xor_row_st_frame[OF Suc.prems lt] by (simp_all add: h1_def)
  have f2: "take n0 h2 = take n0 h" "rows_ok n0 m rows h2"
    using f1 write_num_take[OF addr(1)] write_num_rows_ok[OF f1(2) addr(2)]
    by (simp_all add: h2_def)
  have f': "take n0 h' = take n0 h" "rows_ok n0 m rows h'"
    using f2 Suc.prems by (simp_all add: h'_def)
  have "n = rows - (row + 1)"
    using Suc.hyps(2) by simp
  from Suc.hyps(1)[OF this f'(2)] f'(1) show ?case
    unfolding eq by simp
qed

lemma find_pivot_st_le:
  "p \<le> rows \<Longrightarrow> find_pivot_st h m rows col p \<le> rows"
proof (induction h m rows col p rule: find_pivot_st.induct)
  case (1 h m rows col pivotRow)
  show ?case
  proof (cases "pivotRow < rows \<and> cell h m pivotRow col = 0")
    case True
    then have "find_pivot_st h m rows col pivotRow = find_pivot_st h m rows col (pivotRow + 1)"
      by (subst find_pivot_st.simps) simp
    then show ?thesis
      using "1.IH"[OF True] True by simp
  next
    case False
    then have "find_pivot_st h m rows col pivotRow = pivotRow"
      by (subst find_pivot_st.simps) auto
    then show ?thesis using "1.prems" by simp
  qed
qed

lemma set_swap_entries: "i < length xs \<Longrightarrow> j < length xs \<Longrightarrow> set (swap_entries i j xs) \<subseteq> set xs"
  by (auto simp: swap_entries_def dest!: set_update_subset_insert[THEN subsetD])

lemma swap_rows_st_frame:
  assumes "rows_ok n0 m rows h" "n0 \<le> m" "i < rows" "j < rows"
  shows "take n0 (swap_rows_st m i j h) = take n0 h \<and> rows_ok n0 m rows (swap_rows_st m i j h)"
proof -
  have "refs (swap_rows_st m i j h) m = swap_entries i j (refs h m) \<or>
        refs (swap_rows_st m i j h) m = refs h m"
    by (cases "m < length h") (simp_all add: swap_rows_st_def refs_def list_update_beyond)
  moreover have "set (swap_entries i j (refs h m)) \<subseteq> set (refs h m)"
    using assms by (intro set_swap_entries) (simp_all add: rows_ok_def)
  ultimately have "rows_ok n0 m rows (swap_rows_st m i j h)"
    using assms(1) by (auto simp: rows_ok_def)
  then show ?thesis
    using assms(2) by (simp add: swap_rows_st_def)
qed

lemma swap_nums_st_frame:
  assumes "rows_ok n0 m rows h" "n0 \<le> v" "v \<noteq> m"
  shows "take n0 (swap_nums_st v i j h) = take n0 h \<and> rows_ok n0 m rows (swap_nums_st v i j h)"
  using assms by (simp add: swap_nums_st_def rows_ok_def refs_def)

lemma pivot_step_st_frame:
  assumes ok: "rows_ok n0 m rows h" and addr: "n0 \<le> m" "n0 \<le> v" "n0 \<le> pc" "v \<noteq> m" "pc \<noteq> m"
    and cur: "cur < rows"
  shows "take n0 (fst (pivot_step_st m v pc rows cols col (h, cur))) = take n0 h \<and>
         rows_ok n0 m rows (fst (pivot_step_st m v pc rows cols col (h, cur)))"
proof -
  define p where "p = find_pivot_st h m rows col cur"
  have ple: "p \<le> rows"
    unfolding p_def using cur by (intro find_pivot_st_le) simp
  show ?thesis
  proof (cases "p = rows")
    case True
    then have "pivot_step_st m v pc rows cols col (h, cur) = (h, cur)"
      by (simp add: pivot_step_st_def p_def[symmetric])
    then show ?thesis using ok by simp
  next
    case False
    then have p: "p < rows" using ple by simp
    define h1 where "h1 = (if p \<noteq> cur then swap_nums_st v cur p (swap_rows_st m cur p h) else h)"
    define h2 where "h2 = write_num pc cur (int col) h1"
    define h3 where "h3 = eliminate_st m v rows cols col cur 0 h2"
    have eq: "pivot_step_st m v pc rows cols col (h, cur) = (h3, cur + 1)"
      using False by (simp add: pivot_step_st_def p_def[symmetric] h1_def h2_def h3_def Let_def)
    have s1: "take n0 (swap_rows_st m cur p h) = take n0 h" "rows_ok n0 m rows (swap_rows_st m cur p h)"
      using swap_rows_st_frame[OF ok addr(1) cur p] by simp_all
    have f1: "take n0 h1 = take n0 h" "rows_ok n0 m rows h1"
      using s1 swap_nums_st_frame[OF s1(2) addr(2,4), of cur p] ok by (simp_all add: h1_def)
    have f2: "take n0 h2 = take n0 h" "rows_ok n0 m rows h2"
      using f1 write_num_take[OF addr(3)] write_num_rows_ok[OF f1(2) addr(5)] by (simp_all add: h2_def)
    have f3: "take n0 h3 = take n0 h" "rows_ok n0 m rows h3"
      using eliminate_st_frame[OF addr(2,4) f2(2)] f2(1) by (simp_all add: h3_def)
    show ?thesis
      unfolding eq using f3 by simp
  qed
qed

lemma reduce_st_frame:
  assumes addr: "n0 \<le> m" "n0 \<le> v" "n0 \<le> pc" "v \<noteq> m" "pc \<noteq> m"
  shows "rows_ok n0 m rows (fst st) \<Longrightarrow>
     take n0 (fst (reduce_st m v pc rows cols col st)) = take n0 (fst st) \<and>
     rows_ok n0 m rows (fst (reduce_st m v pc rows cols col st))"
proof (induction "cols - col" arbitrary: col st)
  case 0
  then have "reduce_st m v pc rows cols col st = st"
    by (subst reduce_st.simps) simp
  then show ?case using "0.prems" by simp
next
  case (Suc n)
  show ?case
  proof (cases "col < cols \<and> snd st < rows")
    case True
    obtain h cur where st: "st = (h, cur)" by (cases st)
    have eq: "reduce_st m v pc rows cols col st =
        reduce_st m v pc rows cols (col + 1) (pivot_step_st m v pc rows cols col st)"
      using True by (subst reduce_st.simps) simp
    have ok: "rows_ok n0 m rows h" and cur: "cur < rows"
      using Suc.prems True by (simp_all add: st)
    have step: "take n0 (fst (pivot_step_st m v pc rows cols col st)) = take n0 (fst st)"
        "rows_ok n0 m rows (fst (pivot_step_st m v pc rows cols col st))"
      using pivot_step_st_frame[OF ok addr cur, of cols col] by (simp_all add: st)
    have "n = cols - (col + 1)"
      using Suc.hyps(2) by simp
    from Suc.hyps(1)[OF this step(2)] step(1) show ?thesis
      unfolding eq by simp
  next
    case False
    then have "reduce_st m v pc rows cols col st = st"
      by (subst reduce_st.simps) auto
    then show ?thesis using Suc.prems by simp
  qed
qed

lemma back_substitute_st_frame:
  "n0 \<le> sol \<Longrightarrow> take n0 (back_substitute_st m v pc sol cols n h) = take n0 h"
proof (induction n arbitrary: h)
  case 0
  then show ?case by simp
next
  case (Suc n)
  show ?case
    using Suc.IH[OF Suc.prems] write_num_take[OF Suc.prems]
    by (simp add: Let_def)
qed

lemma copy_rows_spec:
  "copy_rows rs h = (h', as) \<Longrightarrow>
     take (length h) h' = h \<and> length h \<le> length h' \<and> length as = length rs \<and>
     (\<forall>a\<in>set as. length h \<le> a \<and> a < length h')"
proof (induction rs arbitrary: h h' as)
  case Nil
  then show ?case by simp
next
  case (Cons r rs)
  obtain h2 as2 where rec: "copy_rows rs (h @ [Nums (nums h r)]) = (h2, as2)"
    by (cases "copy_rows rs (h @ [Nums (nums h r)])")
  from Cons.prems have h': "h' = h2" and as: "as = length h # as2"
    by (simp_all add: alloc_def rec)
  from Cons.IH[OF rec]
  have IH: "take (length h + 1) h2 = h @ [Nums (nums h r)]" "length h + 1 \<le> length h2"
    "length as2 = length rs" "\<forall>a\<in>set as2. length h + 1 \<le> a \<and> a < length h2"
    by simp_all
  have "take (length h) h2 = take (length h) (take (length h + 1) h2)"
    by simp
  also have "\<dots> = h"
    unfolding IH(1) by simp
  finally show ?case
    using IH by (auto simp: h' as)
qed

text \<open>
  Claim C9. The solver works on copies only: whatever matrix and vector it is called
  with, when it returns every object that was in the store before the call is as it
  was, among them the caller's matrix, its rows and the target vector.
\<close>

theorem solver_leaves_inputs:
  assumes "gaussianEliminationGF2_st h inputMatrix inputVector = Inr (h', result)"
  shows "take (length h) h' = h
         \<and> (\<forall>a<length h. nums h' a = nums h a \<and> refs h' a = refs h a)"
proof -
  define n0 where "n0 = length h"
  define rows where "rows = length (refs h inputMatrix)"
  define cols where "cols = length (nums h (refs h inputMatrix ! 0))"
  obtain h1 rowCopies where c1: "copy_rows (refs h inputMatrix) h = (h1, rowCopies)"
    by (cases "copy_rows (refs h inputMatrix) h")
  define m where "m = length h1"
  define h4 where "h4 = h1 @ [Refs rowCopies, Nums (nums (h1 @ [Refs rowCopies]) inputVector),
      Nums (replicate rows (-1))]"
  obtain h5 cur where red: "reduce_st m (Suc m) (Suc (Suc m)) rows cols 0 (h4, 0) = (h5, cur)"
    by (cases "reduce_st m (Suc m) (Suc (Suc m)) rows cols 0 (h4, 0)")
  define h7 where "h7 = back_substitute_st m (Suc m) (Suc (Suc m)) (length h5) cols cur
      (h5 @ [Nums (replicate cols 0)])"
  from assms have ne: "refs h inputMatrix \<noteq> []"
    by (auto simp: gaussianEliminationGF2_st_def split: if_splits)
  have "gaussianEliminationGF2_st h inputMatrix inputVector =
      (if inconsistent_st h5 m (Suc m) rows cur then Inr (h5, None)
       else Inr (h7, Some (length h5)))"
    using ne red
    by (simp add: gaussianEliminationGF2_st_def Let_def alloc_def c1
        rows_def cols_def m_def h4_def h7_def)
  then have res: "h' = h5 \<or> h' = h7"
    using assms by (auto split: if_splits)
  from copy_rows_spec[OF c1]
  have t1: "take n0 h1 = h" and l1: "n0 \<le> length h1" and lc: "length rowCopies = rows"
    and fresh: "\<forall>a\<in>set rowCopies. n0 \<le> a \<and> a < length h1"
    by (simp_all add: n0_def rows_def)
  have addr: "n0 \<le> m" "n0 \<le> Suc m" "n0 \<le> Suc (Suc m)" "Suc m \<noteq> m" "Suc (Suc m) \<noteq> m"
    using l1 by (simp_all add: m_def)
  have t4: "take n0 h4 = h"
    using t1 l1 by (simp add: h4_def)
  have "refs h4 m = rowCopies"
    by (simp add: refs_def h4_def m_def nth_append)
  then have ok4: "rows_ok n0 m rows (fst (h4, 0::nat))"
    using lc fresh by (auto simp: rows_ok_def m_def)
  from reduce_st_frame[OF addr ok4, of cols 0]
  have t5: "take n0 h5 = h"
    using t4 red by simp
  have l5: "n0 \<le> length h5"
  proof (rule ccontr)
    assume "\<not> n0 \<le> length h5"
    then have "length (take n0 h5) < n0" by simp
    then show False using t5 by (simp add: n0_def)
  qed
  have t7: "take n0 h7 = h"
    using back_substitute_st_frame[of n0 "length h5" m "Suc m" "Suc (Suc m)" cols cur
        "h5 @ [Nums (replicate cols 0)]"] l5 t5
    by (simp add: h7_def)
  have frame: "take (length h) h' = h"
    using res t5 t7 by (auto simp: n0_def)
  have "h' ! a = h ! a" if "a < length h" for a
  proof -
    have "take (length h) h' ! a = h' ! a"
      using that by simp
    then show ?thesis using frame by simp
  qed
  then show ?thesis
    using frame by (simp add: nums_def refs_def)
qed

lemma caller_store_run:
  "gaussianEliminationGF2_st caller_store 3 4 =
     Inr (caller_store @ [Nums [0, 1, 1], Nums [1, 0, 1], Nums [0, 0, 0],
       Refs [6, 5, 7], Nums [1, 1, 0], Nums [0, 1, - 1], Nums [1, 1, 0]], Some 11)"
  by code_simp

theorem solver_leaves_inputs_witness:
  "take (length caller_store) (caller_store @ [Nums [0, 1, 1], Nums [1, 0, 1], Nums [0, 0, 0],
       Refs [6, 5, 7], Nums [1, 1, 0], Nums [0, 1, - 1], Nums [1, 1, 0]]) = caller_store
   \<and> refs (caller_store @ [Nums [0, 1, 1], Nums [1, 0, 1], Nums [0, 0, 0],
          Refs [6, 5, 7], Nums [1, 1, 0], Nums [0, 1, - 1], Nums [1, 1, 0]]) 3 = refs caller_store 3
   \<and> nums (caller_store @ [Nums [0, 1, 1], Nums [1, 0, 1], Nums [0, 0, 0],
          Refs [6, 5, 7], Nums [1, 1, 0], Nums [0, 1, - 1], Nums [1, 1, 0]]) 4 = nums caller_store 4"
proof -
  have "(3::nat) < length caller_store" "(4::nat) < length caller_store"
    by (simp_all add: caller_store_def)
  with solver_leaves_inputs[OF caller_store_run] show ?thesis
    by blast
qed

section \<open>The solver on the store computes what the solver on values computes\<close>

lemma write_num_length [simp]: "length (write_num a k x h) = length h"
  by (simp add: write_num_def)

lemma nums_write_same: "a < length h \<Longrightarrow> nums (write_num a k x h) a = (nums h a)[k := x]"
  by (simp add: write_num_def nums_def)

lemma nums_write_other: "b \<noteq> a \<Longrightarrow> nums (write_num a k x h) b = nums h b"
  by (simp add: write_num_def nums_def)

lemma sep_write: "sep m v pc h \<Longrightarrow> a \<noteq> m \<Longrightarrow> sep m v pc (write_num a k x h)"
  by (simp add: sep_def write_num_refs)

lemma sep_row:
  "sep m v pc h \<Longrightarrow> row < length (refs h m) \<Longrightarrow>
     refs h m ! row < length h \<and> refs h m ! row \<noteq> m \<and> refs h m ! row \<noteq> v \<and> refs h m ! row \<noteq> pc"
  by (auto simp: sep_def)

lemma cell_absM: "row < length (refs h m) \<Longrightarrow> cell h m row k = absM h m ! row ! k"
  by (simp add: cell_def absM_def)

lemma absM_length [simp]: "length (absM h m) = length (refs h m)"
  by (simp add: absM_def)

lemma absM_write_row:
  assumes "sep m v pc h" "row < length (refs h m)"
  shows "absM (write_num (refs h m ! row) k x h) m = (absM h m)[row := (absM h m ! row)[k := x]]"
proof (rule nth_equalityI)
  let ?a = "refs h m ! row"
  have a: "?a < length h" "?a \<noteq> m"
    using sep_row[OF assms] by simp_all
  have r: "refs (write_num ?a k x h) m = refs h m"
    using a(2) by (rule write_num_refs)
  show "length (absM (write_num ?a k x h) m) = length ((absM h m)[row := (absM h m ! row)[k := x]])"
    by (simp add: r)
  fix i assume "i < length (absM (write_num ?a k x h) m)"
  then have i: "i < length (refs h m)" by (simp add: r)
  show "absM (write_num ?a k x h) m ! i = (absM h m)[row := (absM h m ! row)[k := x]] ! i"
  proof (cases "i = row")
    case True
    then show ?thesis
      using i a(1) by (simp add: absM_def r nums_write_same)
  next
    case False
    then have "refs h m ! i \<noteq> ?a"
      using assms i by (simp add: sep_def nth_eq_iff_index_eq)
    then show ?thesis
      using i False by (simp add: absM_def r nums_write_other)
  qed
qed

lemma absM_write_other:
  assumes "a \<notin> set (refs h m)" "a \<noteq> m"
  shows "absM (write_num a k x h) m = absM h m"
proof -
  have "nums (write_num a k x h) b = nums h b" if "b \<in> set (refs h m)" for b
    using that assms(1) by (intro nums_write_other) auto
  then show ?thesis
    using assms(2) by (simp add: absM_def write_num_refs)
qed

lemma find_pivot_st_sim:
  "rows \<le> length (refs h m) \<Longrightarrow>
     find_pivot_st h m rows col p = find_pivot (absM h m) rows col p"
proof (induction "rows - p" arbitrary: p)
  case 0
  then show ?case
    by (subst find_pivot_st.simps, subst find_pivot.simps) simp
next
  case (Suc n)
  then have p: "p < rows" by simp
  then have c: "cell h m p col = absM h m ! p ! col"
    using Suc.prems by (intro cell_absM) simp
  have "n = rows - (p + 1)" using Suc.hyps(2) by simp
  from Suc.hyps(1)[OF this Suc.prems] show ?case
    by (subst find_pivot_st.simps, subst find_pivot.simps) (simp add: c)
qed

lemma xor_row_st_sim:
  assumes "row < length (refs h0 m)" "cur < length (refs h0 m)" "row \<noteq> cur"
  shows "sep m v pc h \<Longrightarrow> refs h m = refs h0 m \<Longrightarrow>
     sep m v pc (xor_row_st m row cur cols k h) \<and>
     refs (xor_row_st m row cur cols k h) m = refs h0 m \<and>
     absM (xor_row_st m row cur cols k h) m =
       (absM h m)[row := xor_row (absM h m ! row) (absM h m ! cur) cols k] \<and>
     nums (xor_row_st m row cur cols k h) v = nums h v \<and>
     nums (xor_row_st m row cur cols k h) pc = nums h pc \<and>
     length (xor_row_st m row cur cols k h) = length h"
proof (induction "cols - k" arbitrary: k h)
  case 0
  then have nk: "\<not> k < cols" by simp
  have "xor_row_st m row cur cols k h = h"
    using nk by (subst xor_row_st.simps) simp
  moreover have "xor_row (absM h m ! row) (absM h m ! cur) cols k = absM h m ! row"
    using nk by (subst xor_row.simps) simp
  ultimately show ?case using "0.prems" by simp
next
  case (Suc n)
  then have k: "k < cols" by simp
  have row: "row < length (refs h m)" and cur: "cur < length (refs h m)"
    using assms Suc.prems(2) by simp_all
  let ?a = "refs h m ! row"
  let ?x = "(cell h m row k) XOR (cell h m cur k)"
  define h1 where "h1 = write_num ?a k ?x h"
  have a: "?a < length h" "?a \<noteq> m" "?a \<noteq> v" "?a \<noteq> pc"
    using sep_row[OF Suc.prems(1) row] by simp_all
  have sep1: "sep m v pc h1" and refs1: "refs h1 m = refs h0 m"
    using sep_write[OF Suc.prems(1) a(2)] write_num_refs[OF a(2)] Suc.prems(2)
    by (simp_all add: h1_def)
  have abs1: "absM h1 m = (absM h m)[row := (absM h m ! row)[k := ?x]]"
    unfolding h1_def by (rule absM_write_row[OF Suc.prems(1) row])
  have x: "?x = (absM h m ! row ! k) XOR (absM h m ! cur ! k)"
    using cell_absM[OF row] cell_absM[OF cur] by simp
  have eq: "xor_row_st m row cur cols k h = xor_row_st m row cur cols (k + 1) h1"
    using k by (subst xor_row_st.simps) (simp add: h1_def)
  have veq: "xor_row (absM h m ! row) (absM h m ! cur) cols k =
      xor_row ((absM h m ! row)[k := ?x]) (absM h m ! cur) cols (k + 1)"
    using k by (subst xor_row.simps) (simp add: x)
  have "n = cols - (k + 1)" using Suc.hyps(2) by simp
  from Suc.hyps(1)[OF this sep1 refs1]
  have IH: "sep m v pc (xor_row_st m row cur cols (k + 1) h1)"
    "refs (xor_row_st m row cur cols (k + 1) h1) m = refs h0 m"
    "absM (xor_row_st m row cur cols (k + 1) h1) m =
       (absM h1 m)[row := xor_row (absM h1 m ! row) (absM h1 m ! cur) cols (k + 1)]"
    "nums (xor_row_st m row cur cols (k + 1) h1) v = nums h1 v"
    "nums (xor_row_st m row cur cols (k + 1) h1) pc = nums h1 pc"
    "length (xor_row_st m row cur cols (k + 1) h1) = length h1"
    by simp_all
  have r1: "absM h1 m ! row = (absM h m ! row)[k := ?x]" and c1: "absM h1 m ! cur = absM h m ! cur"
    using row cur assms(3) by (simp_all add: abs1)
  have "absM (xor_row_st m row cur cols (k + 1) h1) m =
      (absM h m)[row := xor_row (absM h m ! row) (absM h m ! cur) cols k]"
    unfolding IH(3) r1 c1 veq by (simp add: abs1)
  moreover have "nums h1 v = nums h v" "nums h1 pc = nums h pc"
    using a by (simp_all add: h1_def nums_write_other)
  ultimately show ?case
    unfolding eq using IH by (simp add: h1_def)
qed

lemma eliminate_st_sim:
  assumes cur: "cur < rows"
  shows "sep m v pc h \<Longrightarrow> length (refs h m) = rows \<Longrightarrow>
     sep m v pc (eliminate_st m v rows cols col cur row h) \<and>
     length (refs (eliminate_st m v rows cols col cur row h) m) = rows \<and>
     (absM (eliminate_st m v rows cols col cur row h) m,
      nums (eliminate_st m v rows cols col cur row h) v)
        = eliminate rows cols col cur row (absM h m, nums h v) \<and>
     nums (eliminate_st m v rows cols col cur row h) pc = nums h pc \<and>
     length (eliminate_st m v rows cols col cur row h) = length h"
proof (induction "rows - row" arbitrary: row h)
  case 0
  then have nr: "\<not> row < rows" by simp
  have "eliminate_st m v rows cols col cur row h = h"
    using nr by (subst eliminate_st.simps) simp
  moreover have "eliminate rows cols col cur row (absM h m, nums h v) = (absM h m, nums h v)"
    using nr by (subst eliminate.simps) simp
  ultimately show ?case using "0.prems" by simp
next
  case (Suc n)
  then have row: "row < rows" by simp
  have lr: "row < length (refs h m)" "cur < length (refs h m)"
    using row cur Suc.prems(2) by simp_all
  define hit where "hit \<longleftrightarrow> row \<noteq> cur \<and> cell h m row col = 1"
  have hit_abs: "hit \<longleftrightarrow> row \<noteq> cur \<and> absM h m ! row ! col = 1"
    using cell_absM[OF lr(1)] by (simp add: hit_def)
  define h1 where "h1 = xor_row_st m row cur cols col h"
  define h2 where "h2 = write_num v row ((nums h1 v ! row) XOR (nums h1 v ! cur)) h1"
  define h' where "h' = (if hit then h2 else h)"
  have eq: "eliminate_st m v rows cols col cur row h =
      eliminate_st m v rows cols col cur (row + 1) h'"
    using row by (subst eliminate_st.simps) (simp add: h'_def h2_def h1_def hit_def Let_def)
  define M1 where "M1 = (absM h m)[row := xor_row (absM h m ! row) (absM h m ! cur) cols col]"
  define v1 where "v1 = (nums h v)[row := (nums h v ! row) XOR (nums h v ! cur)]"
  have veq: "eliminate rows cols col cur row (absM h m, nums h v) =
      eliminate rows cols col cur (row + 1) (if hit then (M1, v1) else (absM h m, nums h v))"
    using row by (subst eliminate.simps) (simp add: hit_abs M1_def v1_def)
  have step: "sep m v pc h' \<and> length (refs h' m) = rows \<and>
      (absM h' m, nums h' v) = (if hit then (M1, v1) else (absM h m, nums h v)) \<and>
      nums h' pc = nums h pc \<and> length h' = length h"
  proof (cases hit)
    case False
    then show ?thesis using Suc.prems by (simp add: h'_def)
  next
    case True
    then have ne: "row \<noteq> cur" by (simp add: hit_def)
    from xor_row_st_sim[OF lr ne Suc.prems(1) refl, of cols col]
    have s1: "sep m v pc h1" "refs h1 m = refs h m" "absM h1 m = M1"
      "nums h1 v = nums h v" "nums h1 pc = nums h pc" "length h1 = length h"
      by (simp_all add: h1_def M1_def)
    have vm: "v \<noteq> m" "v \<notin> set (refs h1 m)" "v < length h1" "pc \<noteq> v"
      using s1(1) by (auto simp: sep_def)
    have "sep m v pc h2"
      unfolding h2_def by (rule sep_write[OF s1(1) vm(1)])
    moreover have "refs h2 m = refs h m"
      using write_num_refs[OF vm(1)] s1(2) by (simp add: h2_def)
    moreover have "absM h2 m = M1"
      using absM_write_other[OF vm(2,1)] s1(3) by (simp add: h2_def)
    moreover have "nums h2 v = v1"
      using nums_write_same[OF vm(3)] s1(4) by (simp add: h2_def v1_def)
    moreover have "nums h2 pc = nums h pc"
      using nums_write_other[OF vm(4)] s1(5) by (simp add: h2_def)
    ultimately show ?thesis
      using True Suc.prems(2) s1(6) by (simp add: h'_def h2_def)
  qed
  have "n = rows - (row + 1)" using Suc.hyps(2) by simp
  from Suc.hyps(1)[OF this, of h'] step show ?case
    unfolding eq veq by simp
qed

lemma swap_rows_st_sim:
  assumes "sep m v pc h" "i < length (refs h m)" "j < length (refs h m)"
  shows "sep m v pc (swap_rows_st m i j h) \<and>
         length (refs (swap_rows_st m i j h) m) = length (refs h m) \<and>
         absM (swap_rows_st m i j h) m = swap_entries i j (absM h m) \<and>
         nums (swap_rows_st m i j h) v = nums h v \<and>
         nums (swap_rows_st m i j h) pc = nums h pc \<and>
         length (swap_rows_st m i j h) = length h"
proof -
  let ?h = "swap_rows_st m i j h"
  have m: "m < length h" "v \<noteq> m" "pc \<noteq> m" using assms(1) by (simp_all add: sep_def)
  have r: "refs ?h m = swap_entries i j (refs h m)"
    using m(1) by (simp add: swap_rows_st_def refs_def)
  have n: "nums ?h a = nums h a" if "a \<noteq> m" for a
    using that by (simp add: swap_rows_st_def nums_def)
  have set: "set (refs ?h m) = set (refs h m)"
    unfolding r swap_entries_def using assms(2,3) by (rule set_swap)
  have dist: "distinct (refs ?h m)"
    unfolding r swap_entries_def using assms by (simp add: distinct_swap sep_def)
  have "sep m v pc ?h"
    using assms(1) set dist unfolding sep_def by (simp add: swap_rows_st_def)
  moreover have "absM ?h m = swap_entries i j (absM h m)"
  proof -
    have "map (nums ?h) (refs ?h m) = map (nums h) (refs ?h m)"
      using assms(1) set by (intro map_cong refl n) (auto simp: sep_def)
    then show ?thesis
      using assms(2,3) by (simp add: absM_def r swap_entries_def map_update)
  qed
  ultimately show ?thesis
    using n[of v] n[of pc] m by (simp add: r) (simp add: swap_rows_st_def)
qed

lemma swap_nums_st_sim:
  assumes "sep m v pc h"
  shows "sep m v pc (swap_nums_st v i j h) \<and>
         length (refs (swap_nums_st v i j h) m) = length (refs h m) \<and>
         absM (swap_nums_st v i j h) m = absM h m \<and>
         nums (swap_nums_st v i j h) v = swap_entries i j (nums h v) \<and>
         nums (swap_nums_st v i j h) pc = nums h pc \<and>
         length (swap_nums_st v i j h) = length h"
proof -
  let ?h = "swap_nums_st v i j h"
  have v: "v < length h" "v \<noteq> m" "pc \<noteq> v" "v \<notin> set (refs h m)"
    using assms by (auto simp: sep_def)
  have r: "refs ?h m = refs h m"
    using v(2) by (simp add: swap_nums_st_def refs_def)
  have n: "nums ?h a = nums h a" if "a \<noteq> v" for a
    using that by (simp add: swap_nums_st_def nums_def)
  have "absM ?h m = absM h m"
    unfolding absM_def r using v(4) by (intro map_cong refl n) auto
  moreover have "sep m v pc ?h"
    using assms unfolding sep_def r by (simp add: swap_nums_st_def)
  moreover have "nums ?h v = swap_entries i j (nums h v)"
    using v(1) by (simp add: swap_nums_st_def nums_def)
  ultimately show ?thesis
    using n[of pc] v(3) by (simp add: r) (simp add: swap_nums_st_def)
qed

lemma pivot_step_st_sim:
  assumes sp: "sep m v pc h" and lr: "length (refs h m) = rows" and cur: "cur < rows"
  shows "sep m v pc (fst (pivot_step_st m v pc rows cols col (h, cur))) \<and>
         length (refs (fst (pivot_step_st m v pc rows cols col (h, cur))) m) = rows \<and>
         (absM (fst (pivot_step_st m v pc rows cols col (h, cur))) m,
          nums (fst (pivot_step_st m v pc rows cols col (h, cur))) v,
          nums (fst (pivot_step_st m v pc rows cols col (h, cur))) pc,
          snd (pivot_step_st m v pc rows cols col (h, cur)))
           = pivot_step rows cols col (absM h m, nums h v, nums h pc, cur)"
proof -
  define p where "p = find_pivot_st h m rows col cur"
  have pv: "find_pivot (absM h m) rows col cur = p"
    unfolding p_def using lr by (intro find_pivot_st_sim[symmetric]) simp
  have ple: "p \<le> rows"
    unfolding p_def using cur by (intro find_pivot_st_le) simp
  show ?thesis
  proof (cases "p = rows")
    case True
    then have "pivot_step_st m v pc rows cols col (h, cur) = (h, cur)"
      by (simp add: pivot_step_st_def p_def[symmetric])
    moreover have "pivot_step rows cols col (absM h m, nums h v, nums h pc, cur)
        = (absM h m, nums h v, nums h pc, cur)"
      using True by (simp add: pivot_step_def pv)
    ultimately show ?thesis using sp lr by simp
  next
    case False
    then have p: "p < rows" using ple by simp
    define h1 where "h1 = (if p \<noteq> cur then swap_nums_st v cur p (swap_rows_st m cur p h) else h)"
    define h2 where "h2 = write_num pc cur (int col) h1"
    define h3 where "h3 = eliminate_st m v rows cols col cur 0 h2"
    have eq: "pivot_step_st m v pc rows cols col (h, cur) = (h3, cur + 1)"
      using False by (simp add: pivot_step_st_def p_def[symmetric] h1_def h2_def h3_def Let_def)
    define M1 where "M1 = (if p \<noteq> cur then swap_entries cur p (absM h m) else absM h m)"
    define v1 where "v1 = (if p \<noteq> cur then swap_entries cur p (nums h v) else nums h v)"
    have veq: "pivot_step rows cols col (absM h m, nums h v, nums h pc, cur) =
        (fst (eliminate rows cols col cur 0 (M1, v1)), snd (eliminate rows cols col cur 0 (M1, v1)),
         (nums h pc)[cur := int col], cur + 1)"
      using False by (simp add: pivot_step_def pv M1_def v1_def case_prod_beta)
    have s1: "sep m v pc h1 \<and> length (refs h1 m) = rows \<and> absM h1 m = M1 \<and> nums h1 v = v1 \<and>
        nums h1 pc = nums h pc"
    proof (cases "p = cur")
      case True
      then show ?thesis using sp lr by (simp add: h1_def M1_def v1_def)
    next
      case False
      let ?h = "swap_rows_st m cur p h"
      from swap_rows_st_sim[OF sp, of cur p] cur p lr
      have a: "sep m v pc ?h" "length (refs ?h m) = rows" "absM ?h m = swap_entries cur p (absM h m)"
        "nums ?h v = nums h v" "nums ?h pc = nums h pc"
        by simp_all
      from swap_nums_st_sim[OF a(1), of cur p] a
      show ?thesis
        using False by (simp add: h1_def M1_def v1_def)
    qed
    have pcf: "pc \<noteq> m" "pc \<notin> set (refs h1 m)" "pc < length h1" "v \<noteq> pc"
      using s1 by (auto simp: sep_def)
    have s2: "sep m v pc h2" "length (refs h2 m) = rows" "absM h2 m = M1" "nums h2 v = v1"
      "nums h2 pc = (nums h pc)[cur := int col]"
      using s1 sep_write[of m v pc h1 pc] write_num_refs[OF pcf(1), of cur "int col" h1]
        absM_write_other[OF pcf(2,1)] nums_write_other[OF pcf(4), of cur "int col" h1]
        nums_write_same[OF pcf(3), of cur "int col"] pcf(1)
      by (simp_all add: h2_def)
    from eliminate_st_sim[OF cur s2(1,2), of cols col 0]
    have s3: "sep m v pc h3" "length (refs h3 m) = rows"
      "(absM h3 m, nums h3 v) = eliminate rows cols col cur 0 (M1, v1)"
      "nums h3 pc = (nums h pc)[cur := int col]"
      using s2 by (simp_all add: h3_def)
    have "absM h3 m = fst (eliminate rows cols col cur 0 (M1, v1))"
      "nums h3 v = snd (eliminate rows cols col cur 0 (M1, v1))"
      using s3(3) by (metis fst_conv, metis snd_conv)
    then show ?thesis
      unfolding eq veq using s3 by simp
  qed
qed

lemma reduce_st_sim:
  "sep m v pc (fst st) \<Longrightarrow> length (refs (fst st) m) = rows \<Longrightarrow>
     sep m v pc (fst (reduce_st m v pc rows cols col st)) \<and>
     length (refs (fst (reduce_st m v pc rows cols col st)) m) = rows \<and>
     (absM (fst (reduce_st m v pc rows cols col st)) m,
      nums (fst (reduce_st m v pc rows cols col st)) v,
      nums (fst (reduce_st m v pc rows cols col st)) pc,
      snd (reduce_st m v pc rows cols col st))
       = reduce rows cols col (absM (fst st) m, nums (fst st) v, nums (fst st) pc, snd st)"
proof (induction "cols - col" arbitrary: col st)
  case 0
  then have nc: "\<not> col < cols" by simp
  have "reduce_st m v pc rows cols col st = st"
    using nc by (subst reduce_st.simps) simp
  moreover have "reduce rows cols col (absM (fst st) m, nums (fst st) v, nums (fst st) pc, snd st)
      = (absM (fst st) m, nums (fst st) v, nums (fst st) pc, snd st)"
    using nc by (subst reduce.simps) simp
  ultimately show ?case using "0.prems" by simp
next
  case (Suc n)
  obtain h cur where st: "st = (h, cur)" by (cases st)
  let ?abs = "(absM h m, nums h v, nums h pc, cur)"
  show ?case
  proof (cases "col < cols \<and> cur < rows")
    case True
    let ?st = "pivot_step_st m v pc rows cols col (h, cur)"
    have eq: "reduce_st m v pc rows cols col (h, cur) = reduce_st m v pc rows cols (col + 1) ?st"
      using True by (subst reduce_st.simps) simp
    from pivot_step_st_sim[of m v pc h rows cur cols col] Suc.prems True
    have step: "sep m v pc (fst ?st)" "length (refs (fst ?st) m) = rows"
      "(absM (fst ?st) m, nums (fst ?st) v, nums (fst ?st) pc, snd ?st) = pivot_step rows cols col ?abs"
      by (simp_all add: st)
    have veq: "reduce rows cols col ?abs =
        reduce rows cols (col + 1) (absM (fst ?st) m, nums (fst ?st) v, nums (fst ?st) pc, snd ?st)"
      using True unfolding step(3) by (subst reduce.simps) simp
    have "n = cols - (col + 1)" using Suc.hyps(2) by simp
    from Suc.hyps(1)[OF this step(1,2)] show ?thesis
      unfolding st fst_conv snd_conv eq veq .
  next
    case False
    then have "reduce_st m v pc rows cols col st = st"
      by (subst reduce_st.simps) (auto simp: st)
    moreover have "reduce rows cols col ?abs = ?abs"
      using False by (subst reduce.simps) auto
    ultimately show ?thesis using Suc.prems by (simp add: st)
  qed
qed

lemma inconsistent_st_sim:
  "rows \<le> length (refs h m) \<Longrightarrow>
     inconsistent_st h m v rows row = inconsistent (absM h m) (nums h v) rows row"
proof (induction "rows - row" arbitrary: row)
  case 0
  then show ?case
    by (subst inconsistent_st.simps, subst inconsistent.simps) simp
next
  case (Suc n)
  then have row: "row < rows" by simp
  then have r: "nums h (refs h m ! row) = absM h m ! row"
    using Suc.prems by (simp add: absM_def)
  have "n = rows - (row + 1)" using Suc.hyps(2) by simp
  from Suc.hyps(1)[OF this Suc.prems] show ?case
    by (subst inconsistent_st.simps, subst inconsistent.simps) (simp add: r)
qed

lemma back_substitute_st_sim:
  assumes sol: "sol \<noteq> m" "sol \<noteq> v" "sol \<noteq> pc"
  shows "n \<le> length (refs h m) \<Longrightarrow> sol < length h \<Longrightarrow> sol \<notin> set (refs h m) \<Longrightarrow>
     nums (back_substitute_st m v pc sol cols n h) sol =
       back_substitute (absM h m) (nums h v) (nums h pc) cols n (nums h sol)"
proof (induction n arbitrary: h)
  case 0
  then show ?case by simp
next
  case (Suc n)
  have r: "nums h (refs h m ! n) = absM h m ! n"
    using Suc.prems(1) by (simp add: absM_def)
  show ?case
  proof (cases "nums h pc ! n = -1")
    case True
    then show ?thesis
      using Suc.IH[of h] Suc.prems by simp
  next
    case False
    define x where "x = accumulate (absM h m ! n) (nums h sol) cols (nat (nums h pc ! n) + 1)
        (nums h v ! n) AND 1"
    define h' where "h' = write_num sol (nat (nums h pc ! n)) x h"
    have refs': "refs h' m = refs h m"
      using write_num_refs[OF sol(1)] by (simp add: h'_def)
    have abs': "absM h' m = absM h m"
      unfolding h'_def by (rule absM_write_other[OF Suc.prems(3) sol(1)])
    have n': "nums h' v = nums h v" "nums h' pc = nums h pc"
      "nums h' sol = (nums h sol)[nat (nums h pc ! n) := x]"
      using sol nums_write_same[OF Suc.prems(2)]
      by (simp_all add: h'_def nums_write_other)
    have len': "length h' = length h"
      by (simp add: h'_def)
    have "nums (back_substitute_st m v pc sol cols n h') sol =
        back_substitute (absM h' m) (nums h' v) (nums h' pc) cols n (nums h' sol)"
      using Suc.prems by (intro Suc.IH) (simp_all add: refs' len')
    then have IH: "nums (back_substitute_st m v pc sol cols n h') sol =
        back_substitute (absM h m) (nums h v) (nums h pc) cols n
          ((nums h sol)[nat (nums h pc ! n) := x])"
      by (simp add: abs' n')
    have "back_substitute_st m v pc sol cols (Suc n) h = back_substitute_st m v pc sol cols n h'"
      using False by (simp add: Let_def r h'_def x_def)
    moreover have "back_substitute (absM h m) (nums h v) (nums h pc) cols (Suc n) (nums h sol) =
        back_substitute (absM h m) (nums h v) (nums h pc) cols n
          ((nums h sol)[nat (nums h pc ! n) := x])"
      using False by (simp add: Let_def x_def)
    ultimately show ?thesis
      using IH by simp
  qed
qed

lemma nums_append: "a < length h \<Longrightarrow> nums (h @ xs) a = nums h a"
  by (simp add: nums_def nth_append)

lemma refs_append: "a < length h \<Longrightarrow> refs (h @ xs) a = refs h a"
  by (simp add: refs_def nth_append)

lemma copy_rows_explicit:
  "\<forall>r\<in>set rs. r < length h \<Longrightarrow>
     copy_rows rs h = (h @ map (\<lambda>r. Nums (nums h r)) rs, [length h ..< length h + length rs])"
proof (induction rs arbitrary: h)
  case Nil
  then show ?case by simp
next
  case (Cons r rs)
  let ?h1 = "h @ [Nums (nums h r)]"
  have "\<forall>r\<in>set rs. r < length ?h1"
    using Cons.prems by auto
  from Cons.IH[OF this]
  have rec: "copy_rows rs ?h1 =
      (?h1 @ map (\<lambda>r. Nums (nums ?h1 r)) rs, [length ?h1 ..< length ?h1 + length rs])" .
  have "map (\<lambda>r. Nums (nums ?h1 r)) rs = map (\<lambda>r. Nums (nums h r)) rs"
    using Cons.prems by (intro map_cong refl) (simp add: nums_append)
  then have L: "copy_rows (r # rs) h =
      (?h1 @ map (\<lambda>r. Nums (nums h r)) rs,
       length h # [Suc (length h) ..< Suc (length h) + length rs])"
    by (simp add: alloc_def rec)
  have "[length h ..< Suc (length h) + length rs] =
      length h # [Suc (length h) ..< Suc (length h) + length rs]"
    by (rule upt_conv_Cons) simp
  then have U: "[length h ..< length h + length (r # rs)] =
      length h # [Suc (length h) ..< Suc (length h) + length rs]"
    by (simp only: length_Cons add_Suc_right add_Suc)
  show ?case
    unfolding L U by simp
qed

lemma reduce_st_cur_le:
  "snd st \<le> rows \<Longrightarrow> snd (reduce_st m v pc rows cols col st) \<le> rows"
proof (induction "cols - col" arbitrary: col st)
  case 0
  then have "reduce_st m v pc rows cols col st = st"
    by (subst reduce_st.simps) simp
  then show ?case using "0.prems" by simp
next
  case (Suc n)
  show ?case
  proof (cases "col < cols \<and> snd st < rows")
    case True
    obtain h c where st: "st = (h, c)" by (cases st)
    have "snd (pivot_step_st m v pc rows cols col st) \<le> rows"
      using True by (auto simp: pivot_step_st_def st Let_def)
    moreover have "n = cols - (col + 1)" using Suc.hyps(2) by simp
    ultimately have "snd (reduce_st m v pc rows cols (col + 1)
        (pivot_step_st m v pc rows cols col st)) \<le> rows"
      using Suc.hyps(1) by blast
    then show ?thesis
      using True by (subst reduce_st.simps) simp
  next
    case False
    then have "reduce_st m v pc rows cols col st = st"
      by (subst reduce_st.simps) auto
    then show ?thesis using Suc.prems by simp
  qed
qed

text \<open>
  The two models of the solver agree. On a store that holds the caller's matrix and
  vector, the store-level solver raises, returns \<^verbatim>\<open>null\<close> or returns a solution array
  exactly when the value-level solver does on the matrix and vector values, and the
  solution array holds the same vector. The rows of the working matrix are separate
  arrays, so that updating them one at a time, as the value-level model does, loses
  nothing.
\<close>

lemma store_solver_refines:
  assumes rows_in: "\<forall>r\<in>set (refs h inputMatrix). r < length h" and vec_in: "inputVector < length h"
  shows "map_sum id (\<lambda>(h', a). map_option (nums h') a) (gaussianEliminationGF2_st h inputMatrix inputVector)
         = gaussianEliminationGF2 (absM h inputMatrix) (nums h inputVector)"
proof (cases "refs h inputMatrix = []")
  case True
  then show ?thesis
    by (simp add: gaussianEliminationGF2_st_def gaussianEliminationGF2_def absM_def)
next
  case False
  define rs where "rs = refs h inputMatrix"
  define n0 where "n0 = length h"
  define rows where "rows = length rs"
  define cols where "cols = length (nums h (rs ! 0))"
  define h1 where "h1 = h @ map (\<lambda>r. Nums (nums h r)) rs"
  define m where "m = n0 + rows"
  define h4 where "h4 = h1 @ [Refs [n0 ..< n0 + rows], Nums (nums h inputVector),
      Nums (replicate rows (-1))]"
  have rows0: "0 < rows" using False by (simp add: rows_def rs_def)
  have lh1: "length h1 = m" by (simp add: h1_def m_def n0_def rows_def)
  have c1: "copy_rows rs h = (h1, [n0 ..< n0 + rows])"
    using copy_rows_explicit[OF rows_in] by (simp add: rs_def h1_def n0_def rows_def)
  have nv: "nums (h1 @ [Refs [n0 ..< n0 + rows]]) inputVector = nums h inputVector"
    using vec_in by (simp add: nums_def nth_append h1_def)
  obtain h5 cur where red: "reduce_st m (Suc m) (Suc (Suc m)) rows cols 0 (h4, 0) = (h5, cur)"
    by (cases "reduce_st m (Suc m) (Suc (Suc m)) rows cols 0 (h4, 0)")
  define h6 where "h6 = h5 @ [Nums (replicate cols 0)]"
  define h7 where "h7 = back_substitute_st m (Suc m) (Suc (Suc m)) (length h5) cols cur h6"
  have st: "gaussianEliminationGF2_st h inputMatrix inputVector =
      (if inconsistent_st h5 m (Suc m) rows cur then Inr (h5, None)
       else Inr (h7, Some (length h5)))"
    using False red
    by (simp add: gaussianEliminationGF2_st_def Let_def alloc_def rs_def[symmetric] c1 lh1 nv
        rows_def[symmetric] cols_def[symmetric] h4_def h6_def h7_def)
  have refs4: "refs h4 m = [n0 ..< n0 + rows]"
    by (simp add: refs_def h4_def nth_append lh1)
  have nums4: "nums h4 (Suc m) = nums h inputVector" "nums h4 (Suc (Suc m)) = replicate rows (-1)"
    by (simp_all add: nums_def h4_def nth_append lh1)
  have row4: "nums h4 (n0 + i) = nums h (rs ! i)" if "i < rows" for i
    using that by (simp add: nums_def h4_def h1_def nth_append n0_def rows_def)
  have abs4: "absM h4 m = absM h inputMatrix"
    by (rule nth_equalityI)
      (simp_all add: absM_def refs4 rs_def[symmetric] rows_def[symmetric] row4)
  have sep4: "sep m (Suc m) (Suc (Suc m)) h4"
    unfolding sep_def refs4 by (auto simp: h4_def lh1 m_def)
  have len4: "length (refs h4 m) = rows"
    by (simp add: refs4)
  from reduce_st_sim[of m "Suc m" "Suc (Suc m)" "(h4, 0)" rows cols 0] sep4 len4
  have s5: "sep m (Suc m) (Suc (Suc m)) h5" "length (refs h5 m) = rows"
    and r5: "(absM h5 m, nums h5 (Suc m), nums h5 (Suc (Suc m)), cur) =
      reduce rows cols 0 (absM h inputMatrix, nums h inputVector, replicate rows (-1), 0)"
    by (simp_all add: red abs4 nums4)
  have inc: "inconsistent_st h5 m (Suc m) rows cur = inconsistent (absM h5 m) (nums h5 (Suc m)) rows cur"
    using s5(2) by (intro inconsistent_st_sim) simp
  have in5: "m < length h5" "Suc m < length h5" "Suc (Suc m) < length h5"
    "\<forall>a\<in>set (refs h5 m). a < length h5"
    using s5(1) by (auto simp: sep_def)
  have refs6: "refs h6 m = refs h5 m"
    using in5(1) by (simp add: h6_def refs_append)
  have abs6: "absM h6 m = absM h5 m"
    unfolding absM_def refs6 using in5(4) by (intro map_cong refl) (simp add: h6_def nums_append)
  have nums6: "nums h6 (Suc m) = nums h5 (Suc m)" "nums h6 (Suc (Suc m)) = nums h5 (Suc (Suc m))"
    "nums h6 (length h5) = replicate cols 0"
    using in5 by (simp_all add: h6_def nums_append) (simp add: nums_def)
  have cur_le: "cur \<le> rows"
    using reduce_st_cur_le[of "(h4, 0)" rows m "Suc m" "Suc (Suc m)" cols 0] by (simp add: red)
  have sol: "nums h7 (length h5) =
      back_substitute (absM h5 m) (nums h5 (Suc m)) (nums h5 (Suc (Suc m))) cols cur (replicate cols 0)"
  proof -
    have "length h5 \<noteq> m" "length h5 \<noteq> Suc m" "length h5 \<noteq> Suc (Suc m)"
      using in5 by simp_all
    moreover have "cur \<le> length (refs h6 m)" "length h5 \<notin> set (refs h6 m)"
      using cur_le s5(2) in5(4) by (auto simp: refs6)
    moreover have "length h5 < length h6"
      by (simp add: h6_def)
    ultimately have "nums h7 (length h5) =
        back_substitute (absM h6 m) (nums h6 (Suc m)) (nums h6 (Suc (Suc m))) cols cur
          (nums h6 (length h5))"
      unfolding h7_def by (intro back_substitute_st_sim)
    then show ?thesis
      by (simp add: abs6 nums6)
  qed
  have val: "gaussianEliminationGF2 (absM h inputMatrix) (nums h inputVector) =
      (if inconsistent (absM h5 m) (nums h5 (Suc m)) rows cur then Inr None
       else Inr (Some (back_substitute (absM h5 m) (nums h5 (Suc m)) (nums h5 (Suc (Suc m)))
                         cols cur (replicate cols 0))))"
  proof -
    have "absM h inputMatrix \<noteq> []" "length (absM h inputMatrix) = rows"
      "length (absM h inputMatrix ! 0) = cols"
      using False rows0 by (simp_all add: absM_def rs_def rows_def cols_def)
    then show ?thesis
      using r5[symmetric] by (simp add: gaussianEliminationGF2_def)
  qed
  show ?thesis
    unfolding st val inc using sol by simp
qed

section \<open>Two runs of the solver\<close>

lemmas gauss_eval = gaussianEliminationGF2_def pivot_step_def find_pivot.simps eliminate.simps
  xor_row.simps swap_entries_def reduce.simps inconsistent.simps accumulate.simps

lemma zero_board:
  "replicate 25 (0::int) = [0,0,0,0,0, 0,0,0,0,0, 0,0,0,0,0, 0,0,0,0,0, 0,0,0,0,0]"
  by code_simp

lemma center_board:
  "toggleCell (replicate 25 0) 12 = [0,0,0,0,0, 0,0,1,0,0, 0,1,1,1,0, 0,0,1,0,0, 0,0,0,0,0]"
  by code_simp

lemma solve_center:
  "gaussianEliminationGF2 toggleMatrix [0,0,0,0,0, 0,0,1,0,0, 0,1,1,1,0, 0,0,1,0,0, 0,0,0,0,0]
     = Inr (Some [0,0,0,0,0, 0,0,0,0,0, 0,0,1,0,0, 0,0,0,0,0, 0,0,0,0,0])"
  unfolding toggleMatrix_eq by (simp add: gauss_eval)

lemma solve_zero:
  "gaussianEliminationGF2 toggleMatrix [0,0,0,0,0, 0,0,0,0,0, 0,0,0,0,0, 0,0,0,0,0, 0,0,0,0,0]
     = Inr (Some [0,0,0,0,0, 0,0,0,0,0, 0,0,0,0,0, 0,0,0,0,0, 0,0,0,0,0])"
  unfolding toggleMatrix_eq by (simp add: gauss_eval)

text \<open>
  Claim C2. Toggling index 12, the centre, on the solved board sets exactly the cells
  7, 11, 12, 13 and 17, and the solver run on the toggle matrix and that board returns
  the vector whose only 1 is at index 12.
\<close>

theorem center_toggle_solved:
  "toggleCell (replicate 25 0) 12 = (replicate 25 0)[7 := 1, 11 := 1, 12 := 1, 13 := 1, 17 := 1]
   \<and> gaussianEliminationGF2 toggleMatrix (toggleCell (replicate 25 0) 12)
       = Inr (Some ((replicate 25 0)[12 := 1]))"
  unfolding center_board using solve_center by (simp add: zero_board)

text \<open>
  Claim C8. On the solved board the solver returns the all-zero solution vector, so
  the plan is the empty list and not the \<^verbatim>\<open>null\<close> of an unsolvable board, and
  \<open>isSolved\<close> is true.
\<close>

theorem solved_board_empty_plan:
  "gaussianEliminationGF2 toggleMatrix (replicate 25 0) = Inr (Some (replicate 25 0))
   \<and> computeSolution (replicate 25 0) = Inr (Some [])
   \<and> computeSolution (replicate 25 0) \<noteq> Inr None
   \<and> isSolved (replicate 25 0)"
  using solve_zero
  by (simp add: zero_board computeSolution_def planMoves_def solutionIndices_def js_sort_def isSolved_def)

end
